theory Spec2Isabelle
  imports Main "HOL-Library.AList"
begin

section \<open>xscache: cache items, the cache table and its expiration scheduler\<close>

text \<open>
  A sequential model of \<^verbatim>\<open>src/xscache/cachetable.go\<close> and of the cache item file
  (\<^verbatim>\<open>NewCacheItem\<close>, \<^verbatim>\<open>KeepAlive\<close>, \<^verbatim>\<open>SetAboutToExpireCallback\<close>).

  \<^item> \<^verbatim>\<open>*CacheItem\<close> is an address into a store of items (a list; the address is the
    index, and allocation appends), so that two pointers can be told apart.
  \<^item> \<^verbatim>\<open>map[interface{}]*CacheItem\<close> is an association list with distinct keys; the
    order of the list stands for the order in which one \<^verbatim>\<open>range\<close> loop visits the map.
  \<^item> \<^verbatim>\<open>time.Time\<close> and \<^verbatim>\<open>time.Duration\<close> are integers (nanoseconds); every
    call of \<^verbatim>\<open>time.Now()\<close> is an argument of the operation that makes it: an
    operation that reads the clock twice (\<^verbatim>\<open>Add\<close>) has two such arguments.
    \<^verbatim>\<open>int64\<close> values are unbounded integers.
  \<^item> \<^verbatim>\<open>*time.Timer\<close> is a record of the instant it was armed at, its duration, and
    whether it is still pending; \<^verbatim>\<open>Stop\<close> clears the flag.
  \<^item> A callback is a name; calling it appends an event with its argument to a trace.
    Callbacks do not call back into the table. The data loader is a function on the
    item store that returns a pointer or nil.
  \<^item> Locks and the logger have no effect on a sequential run and are left out. A
    timer that fires runs \<^verbatim>\<open>expirationCheck\<close>; the model lets that happen at any
    time.
  \<^item> Keys are compared with HOL equality; a key that Go cannot hash is outside the
    model.
\<close>

subsection \<open>Data\<close>

type_synonym addr = nat
type_synonym callback = nat

datatype error = ErrKeyNotFound | ErrKeyNotFoundOrLoadable

record ('k, 'v) CacheItem =
  key :: 'k
  data :: 'v
  lifeSpan :: int
  createdOn :: int
  accessedOn :: int
  accessCount :: int
  aboutToExpire :: "callback option"

record Timer =
  armedAt :: int
  wait :: int
  pending :: bool

datatype 'k event =
  AddedItem callback addr
| AboutToDeleteItem callback addr
| AboutToExpire callback addr 'k

type_synonym ('k, 'v) store = "('k, 'v) CacheItem list"

record ('k, 'v) CacheTable =
  name :: string
  items :: "('k \<times> addr) list"
  cleanupTimer :: "Timer option"
  cleanupInterval :: int
  loadData :: "('k \<Rightarrow> 'v list \<Rightarrow> ('k, 'v) store \<Rightarrow> addr option \<times> ('k, 'v) store) option"
  addedItem :: "callback option"
  aboutToDeleteItem :: "callback option"

record ('k, 'v) world =
  heap :: "('k, 'v) store"
  table :: "('k, 'v) CacheTable"
  trace :: "'k event list"

record 'k CacheItemPair =
  Key :: 'k
  AccessCount :: int

subsection \<open>Cache items\<close>

definition NewCacheItem :: "'k \<Rightarrow> 'v \<Rightarrow> int \<Rightarrow> int \<Rightarrow> ('k, 'v) CacheItem" where
  "NewCacheItem k d l t =
     \<lparr>key = k, data = d, lifeSpan = l, createdOn = t, accessedOn = t,
      accessCount = 0, aboutToExpire = None\<rparr>"

definition alloc :: "('k, 'v) CacheItem \<Rightarrow> ('k, 'v) store \<Rightarrow> addr \<times> ('k, 'v) store" where
  "alloc it h = (length h, h @ [it])"

definition KeepAlive :: "addr \<Rightarrow> int \<Rightarrow> ('k, 'v) store \<Rightarrow> ('k, 'v) store" where
  "KeepAlive a now h =
     h[a := (h ! a)\<lparr>accessedOn := now, accessCount := accessCount (h ! a) + 1\<rparr>]"

definition SetAboutToExpireCallback ::
    "addr \<Rightarrow> callback option \<Rightarrow> ('k, 'v) store \<Rightarrow> ('k, 'v) store" where
  "SetAboutToExpireCallback a f h = h[a := (h ! a)\<lparr>aboutToExpire := f\<rparr>]"

subsection \<open>The cache table\<close>

text \<open>
  The table that \<^verbatim>\<open>Cache\<close> builds for a name it has not seen (its struct literal);
  the registry of tables is outside the claims.
\<close>

definition newCacheTable :: "string \<Rightarrow> ('k, 'v) CacheTable" where
  "newCacheTable n =
     \<lparr>name = n, items = [], cleanupTimer = None, cleanupInterval = 0,
      loadData = None, addedItem = None, aboutToDeleteItem = None\<rparr>"

definition SetDataLoader ::
    "('k \<Rightarrow> 'v list \<Rightarrow> ('k, 'v) store \<Rightarrow> addr option \<times> ('k, 'v) store) option
     \<Rightarrow> ('k, 'v) world \<Rightarrow> ('k, 'v) world" where
  "SetDataLoader f w = w\<lparr>table := (table w)\<lparr>loadData := f\<rparr>\<rparr>"

definition SetAddedItemCallback :: "callback option \<Rightarrow> ('k, 'v) world \<Rightarrow> ('k, 'v) world" where
  "SetAddedItemCallback f w = w\<lparr>table := (table w)\<lparr>addedItem := f\<rparr>\<rparr>"

definition SetAboutToDeleteItemCallback :: "callback option \<Rightarrow> ('k, 'v) world \<Rightarrow> ('k, 'v) world" where
  "SetAboutToDeleteItemCallback f w = w\<lparr>table := (table w)\<lparr>aboutToDeleteItem := f\<rparr>\<rparr>"

definition Count :: "('k, 'v) world \<Rightarrow> nat" where
  "Count w = length (items (table w))"

definition Exists :: "'k \<Rightarrow> ('k, 'v) world \<Rightarrow> bool" where
  "Exists k w = (map_of (items (table w)) k \<noteq> None)"

definition Stop :: "Timer \<Rightarrow> Timer" where
  "Stop tm = tm\<lparr>pending := False\<rparr>"

definition AfterFunc :: "int \<Rightarrow> int \<Rightarrow> Timer" where
  "AfterFunc now d = \<lparr>armedAt = now, wait = d, pending = True\<rparr>"

definition call :: "callback option \<Rightarrow> (callback \<Rightarrow> 'k event) \<Rightarrow> 'k event list" where
  "call f ev = (case f of None \<Rightarrow> [] | Some g \<Rightarrow> [ev g])"

definition deleteInternal :: "'k \<Rightarrow> ('k, 'v) world \<Rightarrow> (error + addr) \<times> ('k, 'v) world" where
  "deleteInternal k w =
     (case map_of (items (table w)) k of
        None \<Rightarrow> (Inl ErrKeyNotFound, w)
      | Some r \<Rightarrow>
          (Inr r,
           w\<lparr>trace := trace w
                 @ call (aboutToDeleteItem (table w)) (\<lambda>f. AboutToDeleteItem f r)
                 @ call (aboutToExpire (heap w ! r)) (\<lambda>f. AboutToExpire f r k),
             table := (table w)\<lparr>items := AList.delete k (items (table w))\<rparr>\<rparr>))"

definition Delete :: "'k \<Rightarrow> ('k, 'v) world \<Rightarrow> (error + addr) \<times> ('k, 'v) world" where
  "Delete k w = deleteInternal k w"

text \<open>
  The \<^verbatim>\<open>range\<close> loop of \<^verbatim>\<open>expirationCheck\<close>: the entries still to visit, the clock
  reading, and the loop's two variables (\<^verbatim>\<open>smallestDuration\<close> and the table).
\<close>

fun sweep ::
    "int \<Rightarrow> ('k \<times> addr) list \<Rightarrow> int \<Rightarrow> ('k, 'v) world \<Rightarrow> int \<times> ('k, 'v) world" where
  "sweep now [] smallestDuration w = (smallestDuration, w)"
| "sweep now ((k, item) # rest) smallestDuration w =
     (let l = lifeSpan (heap w ! item); acc = accessedOn (heap w ! item) in
      if l = 0 then sweep now rest smallestDuration w
      else if now - acc \<ge> l then sweep now rest smallestDuration (snd (deleteInternal k w))
      else if smallestDuration = 0 \<or> l - (now - acc) < smallestDuration
           then sweep now rest (l - (now - acc)) w
           else sweep now rest smallestDuration w)"

definition expirationCheck :: "int \<Rightarrow> ('k, 'v) world \<Rightarrow> ('k, 'v) world" where
  "expirationCheck now w =
     (let w1 = w\<lparr>table := (table w)\<lparr>cleanupTimer := map_option Stop (cleanupTimer (table w))\<rparr>\<rparr>;
          (smallestDuration, w2) = sweep now (items (table w1)) 0 w1;
          t3 = (table w2)\<lparr>cleanupInterval := smallestDuration\<rparr>
      in if smallestDuration > 0
         then w2\<lparr>table := t3\<lparr>cleanupTimer := Some (AfterFunc now smallestDuration)\<rparr>\<rparr>
         else w2\<lparr>table := t3\<rparr>)"

definition addInternal :: "addr \<Rightarrow> int \<Rightarrow> ('k, 'v) world \<Rightarrow> ('k, 'v) world" where
  "addInternal item now w =
     (let it = heap w ! item;
          expDur = cleanupInterval (table w);
          w1 = w\<lparr>table := (table w)\<lparr>items := AList.update (key it) item (items (table w))\<rparr>,
                 trace := trace w @ call (addedItem (table w)) (\<lambda>f. AddedItem f item)\<rparr>
      in if lifeSpan it > 0 \<and> (expDur = 0 \<or> lifeSpan it < expDur)
         then expirationCheck now w1
         else w1)"

text \<open>
  \<^verbatim>\<open>Add\<close> reads the clock twice: \<open>t\<close> is the reading of \<^verbatim>\<open>NewCacheItem\<close>, and
  \<open>now\<close> the later reading of \<^verbatim>\<open>expirationCheck\<close>, taken (if the check runs at all)
  after the item is stored and the \<^verbatim>\<open>addedItem\<close> callback has returned. The same
  holds for \<^verbatim>\<open>NotFoundAdd\<close> and for the \<^verbatim>\<open>Add\<close> inside \<^verbatim>\<open>Value\<close>.
\<close>

definition Add ::
    "'k \<Rightarrow> 'v \<Rightarrow> int \<Rightarrow> int \<Rightarrow> int \<Rightarrow> ('k, 'v) world \<Rightarrow> addr \<times> ('k, 'v) world" where
  "Add k d l t now w =
     (let (item, h) = alloc (NewCacheItem k d l t) (heap w)
      in (item, addInternal item now (w\<lparr>heap := h\<rparr>)))"

definition NotFoundAdd ::
    "'k \<Rightarrow> 'v \<Rightarrow> int \<Rightarrow> int \<Rightarrow> int \<Rightarrow> ('k, 'v) world \<Rightarrow> bool \<times> ('k, 'v) world" where
  "NotFoundAdd k d l t now w =
     (case map_of (items (table w)) k of
        Some _ \<Rightarrow> (False, w)
      | None \<Rightarrow>
          (let (item, h) = alloc (NewCacheItem k d l t) (heap w)
           in (True, addInternal item now (w\<lparr>heap := h\<rparr>))))"

text \<open>
  \<^verbatim>\<open>Value\<close> on a key that is present reads the clock once, in \<^verbatim>\<open>KeepAlive\<close>:
  the reading \<open>t\<close>. On a miss that the loader serves, \<open>t\<close> and \<open>now\<close> are the two
  readings of its \<^verbatim>\<open>Add\<close>.
\<close>

definition Value ::
    "'k \<Rightarrow> 'v list \<Rightarrow> int \<Rightarrow> int \<Rightarrow> ('k, 'v) world \<Rightarrow> (error + addr) \<times> ('k, 'v) world" where
  "Value k args t now w =
     (case map_of (items (table w)) k of
        Some r \<Rightarrow> (Inr r, w\<lparr>heap := KeepAlive r t (heap w)\<rparr>)
      | None \<Rightarrow>
          (case loadData (table w) of
             Some load \<Rightarrow>
               (case load k args (heap w) of
                  (Some item, h) \<Rightarrow>
                    (Inr item, snd (Add k (data (h ! item)) (lifeSpan (h ! item)) t now (w\<lparr>heap := h\<rparr>)))
                | (None, h) \<Rightarrow> (Inl ErrKeyNotFoundOrLoadable, w\<lparr>heap := h\<rparr>))
           | None \<Rightarrow> (Inl ErrKeyNotFound, w)))"

definition Flush :: "('k, 'v) world \<Rightarrow> ('k, 'v) world" where
  "Flush w =
     w\<lparr>table := (table w)\<lparr>items := [], cleanupTimer := map_option Stop (cleanupTimer (table w))\<rparr>\<rparr>"

subsection \<open>MostAccessed\<close>

definition Less :: "'k CacheItemPair \<Rightarrow> 'k CacheItemPair \<Rightarrow> bool" where
  "Less p q = (AccessCount p > AccessCount q)"

text \<open>
  \<^verbatim>\<open>sort.Sort\<close> orders a slice by its \<^verbatim>\<open>Less\<close>; it promises no order among elements
  that \<^verbatim>\<open>Less\<close> does not separate. Here it is insertion sort directed by \<^const>\<open>Less\<close>.
\<close>

fun insertPair :: "'k CacheItemPair \<Rightarrow> 'k CacheItemPair list \<Rightarrow> 'k CacheItemPair list" where
  "insertPair p [] = [p]"
| "insertPair p (q # qs) = (if Less q p then q # insertPair p qs else p # q # qs)"

fun Sort :: "'k CacheItemPair list \<Rightarrow> 'k CacheItemPair list" where
  "Sort [] = []"
| "Sort (p # ps) = insertPair p (Sort ps)"

text \<open>The second loop of \<^verbatim>\<open>MostAccessed\<close>, with its counter \<^verbatim>\<open>c\<close> and result \<^verbatim>\<open>r\<close>.\<close>

fun collect ::
    "int \<Rightarrow> ('k \<times> addr) list \<Rightarrow> 'k CacheItemPair list \<Rightarrow> int \<Rightarrow> addr list \<Rightarrow> addr list" where
  "collect count its [] c r = r"
| "collect count its (v # vs) c r =
     (if c \<ge> count then r
      else (case map_of its (Key v) of
              Some item \<Rightarrow> collect count its vs (c + 1) (r @ [item])
            | None \<Rightarrow> collect count its vs (c + 1) r))"

definition MostAccessed :: "int \<Rightarrow> ('k, 'v) world \<Rightarrow> addr list" where
  "MostAccessed count w =
     (let p = map (\<lambda>(k, v). \<lparr>Key = k, AccessCount = accessCount (heap w ! v)\<rparr>) (items (table w))
      in collect count (items (table w)) (Sort p) 0 [])"

subsection \<open>Notions used in the statements\<close>

text \<open>
  The two tests of the sweep on an entry with a nonzero \<^verbatim>\<open>lifeSpan\<close> (lines 112 to
  122): it has expired, or it is live with some time remaining.
\<close>

definition expired :: "int \<Rightarrow> ('k, 'v) CacheItem \<Rightarrow> bool" where
  "expired now it = (lifeSpan it \<noteq> 0 \<and> now - accessedOn it \<ge> lifeSpan it)"

definition live :: "int \<Rightarrow> ('k, 'v) CacheItem \<Rightarrow> bool" where
  "live now it = (lifeSpan it \<noteq> 0 \<and> \<not> now - accessedOn it \<ge> lifeSpan it)"

definition remaining :: "int \<Rightarrow> ('k, 'v) CacheItem \<Rightarrow> int" where
  "remaining now it = lifeSpan it - (now - accessedOn it)"

text \<open>The callbacks that \<^verbatim>\<open>deleteInternal\<close> calls for an entry, in order.\<close>

definition deleteEvents :: "('k, 'v) CacheTable \<Rightarrow> ('k, 'v) store \<Rightarrow> 'k \<times> addr \<Rightarrow> 'k event list" where
  "deleteEvents t h e =
     call (aboutToDeleteItem t) (\<lambda>f. AboutToDeleteItem f (snd e))
     @ call (aboutToExpire (h ! snd e)) (\<lambda>f. AboutToExpire f (snd e) (fst e))"

text \<open>
  The value of \<^verbatim>\<open>smallestDuration\<close> after the loop has seen the remaining times
  \<open>rs\<close>, starting from \<open>sd\<close>; 0 stands for "none yet".
\<close>

definition nextWait :: "int \<Rightarrow> int list \<Rightarrow> int" where
  "nextWait sd rs = (if sd = 0 then (if rs = [] then 0 else Min (set rs)) else Min (set (sd # rs)))"

definition sweepWait :: "int \<Rightarrow> ('k, 'v) world \<Rightarrow> int" where
  "sweepWait now w =
     nextWait 0 (map (\<lambda>e. remaining now (heap w ! snd e))
                  (filter (\<lambda>e. live now (heap w ! snd e)) (items (table w))))"

text \<open>
  The scheduling invariant of the specification, as a check on a state: every entry
  with a nonzero \<^verbatim>\<open>lifeSpan\<close> has a pending timer that fires no later than
  \<^verbatim>\<open>accessedOn + lifeSpan\<close>.
\<close>

definition sweepScheduled :: "('k, 'v) world \<Rightarrow> bool" where
  "sweepScheduled w =
     list_all
       (\<lambda>e. lifeSpan (heap w ! snd e) = 0 \<or>
            (case cleanupTimer (table w) of
               None \<Rightarrow> False
             | Some tm \<Rightarrow>
                 pending tm \<and>
                 armedAt tm + wait tm \<le> accessedOn (heap w ! snd e) + lifeSpan (heap w ! snd e)))
       (items (table w))"

text \<open>
  The state of \<^verbatim>\<open>Add\<close> once \<^verbatim>\<open>addInternal\<close> has stored the new item in the map
  and called the \<^verbatim>\<open>addedItem\<close> callback (lines 141 to 151), before it decides whether
  to run the expiration check.
\<close>

definition stored :: "'k \<Rightarrow> 'v \<Rightarrow> int \<Rightarrow> int \<Rightarrow> ('k, 'v) world \<Rightarrow> ('k, 'v) world" where
  "stored k d l t w =
     w\<lparr>heap := heap w @ [NewCacheItem k d l t],
       table := (table w)\<lparr>items := AList.update k (length (heap w)) (items (table w))\<rparr>,
       trace := trace w @ call (addedItem (table w)) (\<lambda>f. AddedItem f (length (heap w)))\<rparr>"

text \<open>
  What the timer of a table says: whether a sweep is pending, and the wait it was armed
  with. \<^verbatim>\<open>cleanupInterval\<close> is the code's own record of that wait, 0 standing for
  "no sweep"; \<open>timerConsistent\<close> says that the two agree, as they do after every run
  of \<^verbatim>\<open>expirationCheck\<close>.
\<close>

definition sweepPending :: "('k, 'v) CacheTable \<Rightarrow> bool" where
  "sweepPending t = (case cleanupTimer t of None \<Rightarrow> False | Some tm \<Rightarrow> pending tm)"

definition scheduledWait :: "('k, 'v) CacheTable \<Rightarrow> int" where
  "scheduledWait t = (case cleanupTimer t of None \<Rightarrow> 0 | Some tm \<Rightarrow> wait tm)"

definition timerConsistent :: "('k, 'v) CacheTable \<Rightarrow> bool" where
  "timerConsistent t =
     (if sweepPending t then cleanupInterval t = scheduledWait t \<and> 0 < cleanupInterval t
      else cleanupInterval t = 0)"

text \<open>
  The shape of a table in a running program: the keys of the map are distinct, no item
  is stored under two keys (every stored item comes fresh from \<^verbatim>\<open>NewCacheItem\<close>), and
  every stored pointer points to an allocated item.
\<close>

definition wellFormed :: "('k, 'v) world \<Rightarrow> bool" where
  "wellFormed w =
     (distinct (map fst (items (table w))) \<and>
      distinct (map snd (items (table w))) \<and>
      list_all (\<lambda>e. snd e < length (heap w)) (items (table w)))"

subsection \<open>Reachable states\<close>

text \<open>
  The states a program can reach from a new table through the operations of the table
  and of its items. A data loader may allocate items and change them; it returns nil or
  a pointer to an allocated item (\<open>loaderOK\<close>), as every Go function does.
\<close>

definition loaderOK ::
    "('k \<Rightarrow> 'v list \<Rightarrow> ('k, 'v) store \<Rightarrow> addr option \<times> ('k, 'v) store) option \<Rightarrow> bool" where
  "loaderOK f =
     (case f of
        None \<Rightarrow> True
      | Some load \<Rightarrow>
          (\<forall>k args h. length h \<le> length (snd (load k args h)) \<and>
             (case fst (load k args h) of
                None \<Rightarrow> True
              | Some a \<Rightarrow> a < length (snd (load k args h)))))"

inductive reachable :: "('k, 'v) world \<Rightarrow> bool" where
  start: "reachable \<lparr>heap = [], table = newCacheTable n, trace = []\<rparr>"
| add: "reachable w \<Longrightarrow> reachable (snd (Add k d l t now w))"
| notFoundAdd: "reachable w \<Longrightarrow> reachable (snd (NotFoundAdd k d l t now w))"
| delete: "reachable w \<Longrightarrow> reachable (snd (Delete k w))"
| valu: "reachable w \<Longrightarrow> reachable (snd (Value k args t now w))"
| flush: "reachable w \<Longrightarrow> reachable (Flush w)"
| timer: "reachable w \<Longrightarrow> reachable (expirationCheck now w)"
| newItem: "reachable w \<Longrightarrow> reachable (w\<lparr>heap := snd (alloc (NewCacheItem k d l now) (heap w))\<rparr>)"
| keepAlive: "reachable w \<Longrightarrow> a < length (heap w) \<Longrightarrow>
    reachable (w\<lparr>heap := KeepAlive a now (heap w)\<rparr>)"
| setAboutToExpire: "reachable w \<Longrightarrow> a < length (heap w) \<Longrightarrow>
    reachable (w\<lparr>heap := SetAboutToExpireCallback a g (heap w)\<rparr>)"
| setDataLoader: "reachable w \<Longrightarrow> loaderOK f \<Longrightarrow> reachable (SetDataLoader f w)"
| setAddedItem: "reachable w \<Longrightarrow> reachable (SetAddedItemCallback f w)"
| setAboutToDeleteItem: "reachable w \<Longrightarrow> reachable (SetAboutToDeleteItemCallback f w)"

definition tableInv :: "('k, 'v) world \<Rightarrow> bool" where
  "tableInv w = (wellFormed w \<and> loaderOK (loadData (table w)))"

subsection \<open>Example states\<close>

definition emptyWorld :: "(string, nat) world" where
  "emptyWorld = \<lparr>heap = [], table = newCacheTable ''test'', trace = []\<rparr>"

definition exampleWorld :: "(string, nat) world" where
  "exampleWorld =
     \<lparr>heap = [\<lparr>key = ''a'', data = 1, lifeSpan = 5, createdOn = 0, accessedOn = 0,
                accessCount = 2, aboutToExpire = Some 9\<rparr>,
              \<lparr>key = ''b'', data = 2, lifeSpan = 0, createdOn = 0, accessedOn = 0,
                accessCount = 7, aboutToExpire = None\<rparr>,
              \<lparr>key = ''c'', data = 3, lifeSpan = 20, createdOn = 1, accessedOn = 3,
                accessCount = 4, aboutToExpire = None\<rparr>],
      table = \<lparr>name = ''test'', items = [(''a'', 0), (''b'', 1), (''c'', 2)],
               cleanupTimer = Some \<lparr>armedAt = 0, wait = 5, pending = True\<rparr>,
               cleanupInterval = 5, loadData = None, addedItem = Some 8,
               aboutToDeleteItem = Some 7\<rparr>,
      trace = []\<rparr>"

text \<open>
  A data loader in the manner of the demo program: it builds an item for any key but
  \<^verbatim>\<open>"nil"\<close>, for which it returns nil.
\<close>

definition exampleLoader :: "string \<Rightarrow> nat list \<Rightarrow> (string, nat) store \<Rightarrow> addr option \<times> (string, nat) store" where
  "exampleLoader k args h =
     (if k = ''nil'' then (None, h)
      else (Some (length h),
            h @ [\<lparr>key = k, data = 42, lifeSpan = 5, createdOn = 0, accessedOn = 0,
                  accessCount = 0, aboutToExpire = None\<rparr>]))"

definition loaderWorld :: "(string, nat) world" where
  "loaderWorld = exampleWorld\<lparr>table := (table exampleWorld)\<lparr>loadData := Some exampleLoader\<rparr>\<rparr>"

text \<open>
  A data loader that hands out the same item every time: the first item ever allocated.
\<close>

definition sharedLoader ::
    "string \<Rightarrow> nat list \<Rightarrow> (string, nat) store \<Rightarrow> addr option \<times> (string, nat) store" where
  "sharedLoader k args h = (if h = [] then (None, h) else (Some 0, h))"

definition sharedWorld :: "(string, nat) world" where
  "sharedWorld =
     \<lparr>heap = [\<lparr>key = ''proto'', data = 42, lifeSpan = 5, createdOn = 0, accessedOn = 0,
                accessCount = 0, aboutToExpire = None\<rparr>],
      table = \<lparr>name = ''test'', items = [], cleanupTimer = None, cleanupInterval = 0,
               loadData = Some sharedLoader, addedItem = None, aboutToDeleteItem = None\<rparr>,
      trace = []\<rparr>"

section \<open>Auxiliary facts\<close>

lemma deleteInternal_present:
  "map_of (items (table w)) k = Some r \<Longrightarrow>
   deleteInternal k w =
     (Inr r, w\<lparr>trace := trace w @ deleteEvents (table w) (heap w) (k, r),
              table := (table w)\<lparr>items := AList.delete k (items (table w))\<rparr>\<rparr>)"
  by (simp add: deleteInternal_def deleteEvents_def)

lemma deleteInternal_absent:
  "map_of (items (table w)) k = None \<Longrightarrow> deleteInternal k w = (Inl ErrKeyNotFound, w)"
  by (simp add: deleteInternal_def)

lemma heap_deleteInternal: "heap (snd (deleteInternal k w)) = heap w"
  by (simp add: deleteInternal_def split: option.splits)

lemma heap_sweep: "heap (snd (sweep now xs sd w)) = heap w"
  by (induction xs arbitrary: sd w) (auto simp: Let_def heap_deleteInternal)

lemma remaining_pos: "live now it \<Longrightarrow> 0 < remaining now it"
  by (simp add: live_def remaining_def)

lemma nextWait_Nil: "nextWait sd [] = sd"
  by (simp add: nextWait_def)

lemma nextWait_Cons:
  "0 \<le> sd \<Longrightarrow> 0 < r \<Longrightarrow>
   nextWait sd (r # rs) = nextWait (if sd = 0 \<or> r < sd then r else sd) rs"
  by (cases "rs = []") (auto simp: nextWait_def min_def)

lemma fst_sweep:
  "0 \<le> sd \<Longrightarrow>
   fst (sweep now xs sd w) =
     nextWait sd (map (\<lambda>e. remaining now (heap w ! snd e)) (filter (\<lambda>e. live now (heap w ! snd e)) xs))"
proof (induction xs arbitrary: sd w)
  case Nil
  then show ?case by (simp add: nextWait_Nil)
next
  case (Cons e xs)
  obtain k a where e: "e = (k, a)" by (cases e)
  let ?it = "heap w ! a"
  show ?case
  proof (cases "live now ?it")
    case True
    then have pos: "0 < remaining now ?it" by (rule remaining_pos)
    from True have l: "lifeSpan ?it \<noteq> 0" "\<not> now - accessedOn ?it \<ge> lifeSpan ?it"
      by (simp_all add: live_def)
    show ?thesis
    proof (cases "sd = 0 \<or> remaining now ?it < sd")
      case True
      with Cons.IH [of "remaining now ?it" w] pos Cons.prems \<open>live now ?it\<close> l show ?thesis
        by (simp add: e nextWait_Cons remaining_def Let_def)
    next
      case False
      with Cons.IH [of sd w] pos Cons.prems \<open>live now ?it\<close> l show ?thesis
        by (simp add: e nextWait_Cons remaining_def Let_def)
    qed
  next
    case False
    then have "lifeSpan ?it = 0 \<or> now - accessedOn ?it \<ge> lifeSpan ?it"
      by (auto simp: live_def)
    with False Cons.IH [of sd w] Cons.IH [of sd "snd (deleteInternal k w)"] Cons.prems
    show ?thesis
      by (auto simp: e heap_deleteInternal Let_def)
  qed
qed

lemma delete_filter: "AList.delete k al = filter (\<lambda>e. fst e \<noteq> k) al"
  by (induction al) (auto simp: AList.delete_eq)

lemma deleteEvents_items: "deleteEvents (t\<lparr>items := x\<rparr>) h = deleteEvents t h"
  by (rule ext) (simp add: deleteEvents_def)

lemma snd_sweep:
  "distinct (map fst xs) \<Longrightarrow>
   \<forall>e \<in> set xs. map_of (items (table w)) (fst e) = Some (snd e) \<Longrightarrow>
   snd (sweep now xs sd w) =
     w\<lparr>table := (table w)\<lparr>items :=
          filter (\<lambda>e. fst e \<notin> fst ` set (filter (\<lambda>e. expired now (heap w ! snd e)) xs))
            (items (table w))\<rparr>,
       trace := trace w
          @ concat (map (deleteEvents (table w) (heap w))
              (filter (\<lambda>e. expired now (heap w ! snd e)) xs))\<rparr>"
proof (induction xs arbitrary: sd w)
  case Nil
  then show ?case by simp
next
  case (Cons e xs)
  obtain k a where e: "e = (k, a)" by (cases e)
  let ?it = "heap w ! a"
  from Cons.prems have dist: "distinct (map fst xs)" and knot: "k \<notin> fst ` set xs"
    and here: "map_of (items (table w)) k = Some a"
    and rest: "\<forall>e \<in> set xs. map_of (items (table w)) (fst e) = Some (snd e)"
    by (auto simp: e)
  show ?case
  proof (cases "expired now ?it")
    case False
    then have "snd (sweep now (e # xs) sd w) = snd (sweep now xs sd w)
        \<or> snd (sweep now (e # xs) sd w) = snd (sweep now xs (lifeSpan ?it - (now - accessedOn ?it)) w)"
      by (auto simp: e expired_def Let_def)
    with False Cons.IH [OF dist rest] show ?thesis
      by (auto simp: e)
  next
    case True
    let ?w = "snd (deleteInternal k w)"
    have w': "?w = w\<lparr>trace := trace w @ deleteEvents (table w) (heap w) (k, a),
              table := (table w)\<lparr>items := AList.delete k (items (table w))\<rparr>\<rparr>"
      using here by (simp add: deleteInternal_present)
    have rest': "\<forall>e \<in> set xs. map_of (items (table ?w)) (fst e) = Some (snd e)"
      using rest knot by (auto simp: w' AList.delete_conv')
    have step: "snd (sweep now (e # xs) sd w) = snd (sweep now xs sd ?w)"
      using True by (simp add: e expired_def Let_def)
    show ?thesis
      unfolding step Cons.IH [OF dist rest']
      using True by (simp add: w' e delete_filter deleteEvents_items conj_commute)
  qed
qed

lemma filter_by_keys:
  "distinct (map fst al) \<Longrightarrow>
   filter (\<lambda>e. fst e \<notin> fst ` set (filter P al)) al = filter (\<lambda>e. \<not> P e) al"
proof (rule filter_cong [OF refl])
  fix e assume d: "distinct (map fst al)" and e: "e \<in> set al"
  show "(fst e \<notin> fst ` set (filter P al)) = (\<not> P e)"
  proof (cases "P e")
    case True
    with e have "e \<in> set (filter P al)" by simp
    then have "fst e \<in> fst ` set (filter P al)" by (rule imageI)
    with True show ?thesis by simp
  next
    case False
    have "fst e \<notin> fst ` set (filter P al)"
    proof
      assume "fst e \<in> fst ` set (filter P al)"
      then obtain x where x: "x \<in> set al" "P x" "fst x = fst e" by auto
      with d e have "x = e"
        by (metis eq_key_imp_eq_value prod.collapse)
      with x False show False by simp
    qed
    with False show ?thesis by simp
  qed
qed

lemma map_of_self: "distinct (map fst al) \<Longrightarrow> \<forall>e \<in> set al. map_of al (fst e) = Some (snd e)"
  by auto

lemma expirationCheck_eq:
  assumes "distinct (map fst (items (table w)))"
  shows "expirationCheck now w =
     w\<lparr>table := (table w)
          \<lparr>cleanupTimer :=
             (if sweepWait now w > 0 then Some (AfterFunc now (sweepWait now w))
              else map_option Stop (cleanupTimer (table w))),
           items := filter (\<lambda>e. \<not> expired now (heap w ! snd e)) (items (table w)),
           cleanupInterval := sweepWait now w\<rparr>,
       trace := trace w
          @ concat (map (deleteEvents (table w) (heap w))
              (filter (\<lambda>e. expired now (heap w ! snd e)) (items (table w))))\<rparr>"
proof -
  let ?w1 = "w\<lparr>table := (table w)\<lparr>cleanupTimer := map_option Stop (cleanupTimer (table w))\<rparr>\<rparr>"
  have f: "fst (sweep now (items (table w)) 0 ?w1) = sweepWait now w"
    by (simp add: fst_sweep sweepWait_def)
  have d1: "distinct (map fst (items (table ?w1)))" using assms by simp
  have ev: "deleteEvents (t\<lparr>cleanupTimer := x\<rparr>) h = deleteEvents t h" for t :: "('k, 'v) CacheTable" and x h
    by (rule ext) (simp add: deleteEvents_def)
  have s: "snd (sweep now (items (table w)) 0 ?w1) =
     ?w1\<lparr>table := (table ?w1)\<lparr>items := filter (\<lambda>e. \<not> expired now (heap w ! snd e)) (items (table w))\<rparr>,
       trace := trace w
          @ concat (map (deleteEvents (table w) (heap w))
              (filter (\<lambda>e. expired now (heap w ! snd e)) (items (table w))))\<rparr>"
    using snd_sweep [OF d1 map_of_self [OF d1], of now 0] filter_by_keys [OF assms]
    by (simp add: ev)
  show ?thesis
    unfolding expirationCheck_def Let_def
    by (simp add: f s split_beta)
qed

lemmas run_defs =
  Delete_def deleteInternal_def call_def newCacheTable_def emptyWorld_def exampleWorld_def
  Add_def alloc_def NewCacheItem_def addInternal_def expirationCheck_def Flush_def
  Stop_def AfterFunc_def Let_def

lemma map_of_filter_keep:
  "map_of al k = Some a \<Longrightarrow> P (k, a) \<Longrightarrow> map_of (filter P al) k = Some a"
  by (induction al) (auto split: if_splits)

lemma heap_expirationCheck: "heap (expirationCheck now w) = heap w"
  by (simp add: expirationCheck_def Let_def split_beta heap_sweep)

lemma distinct_expirationCheck:
  "distinct (map fst (items (table w))) \<Longrightarrow>
   distinct (map fst (items (table (expirationCheck now w))))"
  by (simp add: expirationCheck_eq distinct_map_filter)

lemma expirationCheck_keeps:
  "distinct (map fst (items (table w))) \<Longrightarrow> map_of (items (table w)) k = Some a \<Longrightarrow>
   \<not> expired now (heap w ! a) \<Longrightarrow>
   map_of (items (table (expirationCheck now w))) k = Some a"
  by (simp add: expirationCheck_eq map_of_filter_keep)

lemma fold_Delete:
  "distinct (map fst xs) \<Longrightarrow>
   \<forall>e \<in> set xs. map_of (items (table w)) (fst e) = Some (snd e) \<Longrightarrow>
   fold (\<lambda>e w. snd (Delete (fst e) w)) xs w =
     w\<lparr>table := (table w)\<lparr>items := filter (\<lambda>e. fst e \<notin> fst ` set xs) (items (table w))\<rparr>,
       trace := trace w @ concat (map (deleteEvents (table w) (heap w)) xs)\<rparr>"
proof (induction xs arbitrary: w)
  case Nil
  then show ?case by simp
next
  case (Cons e xs)
  obtain k a where e: "e = (k, a)" by (cases e)
  from Cons.prems have dist: "distinct (map fst xs)" and knot: "k \<notin> fst ` set xs"
    and here: "map_of (items (table w)) k = Some a"
    and rest: "\<forall>e \<in> set xs. map_of (items (table w)) (fst e) = Some (snd e)"
    by (auto simp: e)
  let ?w = "snd (Delete k w)"
  have w': "?w = w\<lparr>trace := trace w @ deleteEvents (table w) (heap w) (k, a),
            table := (table w)\<lparr>items := AList.delete k (items (table w))\<rparr>\<rparr>"
    using here by (simp add: Delete_def deleteInternal_present)
  have rest': "\<forall>e \<in> set xs. map_of (items (table ?w)) (fst e) = Some (snd e)"
    using rest knot by (auto simp: w' AList.delete_conv')
  have "fold (\<lambda>e w. snd (Delete (fst e) w)) (e # xs) w = fold (\<lambda>e w. snd (Delete (fst e) w)) xs ?w"
    by (simp add: e)
  also note Cons.IH [OF dist rest']
  finally show ?case
    by (simp add: w' e delete_filter deleteEvents_items conj_commute)
qed

lemma nextWait_0: "nextWait 0 rs = (if rs = [] then 0 else Min (set rs))"
  by (simp add: nextWait_def)

lemma Min_list_pos: "rs \<noteq> [] \<Longrightarrow> \<forall>r \<in> set rs. (0::int) < r \<Longrightarrow> 0 < Min (set rs)"
  using Min_in [of "set rs"] by auto

lemma sweepWait_pos:
  "filter (\<lambda>e. live now (heap w ! snd e)) (items (table w)) \<noteq> [] \<Longrightarrow> 0 < sweepWait now w"
proof -
  let ?rs = "map (\<lambda>e. remaining now (heap w ! snd e))
               (filter (\<lambda>e. live now (heap w ! snd e)) (items (table w)))"
  assume "filter (\<lambda>e. live now (heap w ! snd e)) (items (table w)) \<noteq> []"
  then have ne: "?rs \<noteq> []" by simp
  have "\<forall>r \<in> set ?rs. 0 < r" by (auto simp: remaining_pos)
  with ne have "0 < Min (set ?rs)" by (rule Min_list_pos)
  with ne show ?thesis by (simp only: sweepWait_def nextWait_0 if_False)
qed

lemma sweepWait_none:
  "filter (\<lambda>e. live now (heap w ! snd e)) (items (table w)) = [] \<Longrightarrow> sweepWait now w = 0"
  by (simp add: sweepWait_def nextWait_0)

lemma survivors_live:
  "filter (\<lambda>e. lifeSpan (h ! snd e) \<noteq> 0) (filter (\<lambda>e. \<not> expired now (h ! snd e)) al)
     = filter (\<lambda>e. live now (h ! snd e)) al"
  by (induction al) (auto simp: expired_def live_def)

lemma Add_eq:
  "Add k d l t now w =
     (length (heap w),
      if l > 0 \<and> (cleanupInterval (table w) = 0 \<or> l < cleanupInterval (table w))
      then expirationCheck now (stored k d l t w)
      else stored k d l t w)"
  by (auto simp: Add_def alloc_def addInternal_def stored_def NewCacheItem_def Let_def)

lemma NotFoundAdd_eq:
  "NotFoundAdd k d l t now w =
     (case map_of (items (table w)) k of
        Some _ \<Rightarrow> (False, w)
      | None \<Rightarrow> (True, snd (Add k d l t now w)))"
  by (simp add: NotFoundAdd_def Add_def split_beta Let_def split: option.splits)

lemma stored_simps:
  "heap (stored k d l t w) = heap w @ [NewCacheItem k d l t]"
  "items (table (stored k d l t w)) = AList.update k (length (heap w)) (items (table w))"
  "trace (stored k d l t w) = trace w @ call (addedItem (table w)) (\<lambda>f. AddedItem f (length (heap w)))"
  "cleanupTimer (table (stored k d l t w)) = cleanupTimer (table w)"
  "cleanupInterval (table (stored k d l t w)) = cleanupInterval (table w)"
  "aboutToDeleteItem (table (stored k d l t w)) = aboutToDeleteItem (table w)"
  "addedItem (table (stored k d l t w)) = addedItem (table w)"
  "loadData (table (stored k d l t w)) = loadData (table w)"
  by (simp_all add: stored_def)

lemma distinct_stored:
  "distinct (map fst (items (table w))) \<Longrightarrow> distinct (map fst (items (table (stored k d l t w))))"
  by (simp add: stored_simps distinct_update)

lemma new_item_not_expired: "now - t < l \<Longrightarrow> \<not> expired now (NewCacheItem k d l t)"
  by (simp add: expired_def NewCacheItem_def)

lemma new_item_expired: "0 < l \<Longrightarrow> l \<le> now - t \<Longrightarrow> expired now (NewCacheItem k d l t)"
  by (simp add: expired_def NewCacheItem_def)


lemma Add_heap: "heap (snd (Add k d l t now w)) = heap w @ [NewCacheItem k d l t]"
  by (simp add: Add_eq heap_expirationCheck stored_simps)

lemma map_of_filter_drop:
  "distinct (map fst al) \<Longrightarrow> map_of al k = Some a \<Longrightarrow> \<not> P (k, a) \<Longrightarrow>
   map_of (filter P al) k = None"
proof -
  assume d: "distinct (map fst al)" and m: "map_of al k = Some a" and n: "\<not> P (k, a)"
  have "k \<notin> fst ` set (filter P al)"
  proof
    assume "k \<in> fst ` set (filter P al)"
    then obtain b where b: "(k, b) \<in> set al" "P (k, b)" by auto
    from m have "(k, a) \<in> set al" by (rule map_of_SomeD)
    with d b(1) have "b = a" by (rule eq_key_imp_eq_value)
    with b(2) n show False by simp
  qed
  then show ?thesis by (simp add: map_of_eq_None_iff)
qed

lemma expirationCheck_drops:
  "distinct (map fst (items (table w))) \<Longrightarrow> map_of (items (table w)) k = Some a \<Longrightarrow>
   expired now (heap w ! a) \<Longrightarrow>
   map_of (items (table (expirationCheck now w))) k = None"
  by (simp add: expirationCheck_eq map_of_filter_drop)

text \<open>
  Where the key of \<^verbatim>\<open>Add\<close> is afterwards: under the new item, unless the check ran
  and, at its reading of the clock, the new item's \<^verbatim>\<open>lifeSpan\<close> had already elapsed.
\<close>

lemma Add_lookup:
  assumes "distinct (map fst (items (table w)))"
  shows "map_of (items (table (snd (Add k d l t now w)))) k =
     (if (0 < l \<and> (cleanupInterval (table w) = 0 \<or> l < cleanupInterval (table w))) \<and> l \<le> now - t
      then None else Some (length (heap w)))"
proof -
  let ?s = "stored k d l t w"
  have m: "map_of (items (table ?s)) k = Some (length (heap w))"
    by (simp add: stored_simps update_conv')
  have it: "heap ?s ! length (heap w) = NewCacheItem k d l t"
    by (simp add: stored_simps)
  note ds = distinct_stored [OF assms, of k d l t]
  show ?thesis
  proof (cases "0 < l \<and> (cleanupInterval (table w) = 0 \<or> l < cleanupInterval (table w))")
    case False
    then have "snd (Add k d l t now w) = ?s" by (auto simp: Add_eq)
    with False m show ?thesis by auto
  next
    case True
    then have run: "snd (Add k d l t now w) = expirationCheck now ?s" by (simp add: Add_eq)
    show ?thesis
    proof (cases "l \<le> now - t")
      case True
      with \<open>0 < l \<and> _\<close> have "expired now (heap ?s ! length (heap w))"
        by (simp add: it new_item_expired)
      with ds m have "map_of (items (table (expirationCheck now ?s))) k = None"
        by (rule expirationCheck_drops)
      with True \<open>0 < l \<and> _\<close> run show ?thesis by simp
    next
      case False
      then have "\<not> expired now (heap ?s ! length (heap w))"
        by (simp add: it new_item_not_expired)
      with ds m have "map_of (items (table (expirationCheck now ?s))) k = Some (length (heap w))"
        by (rule expirationCheck_keeps)
      with False run show ?thesis by simp
    qed
  qed
qed

lemma Add_distinct:
  "distinct (map fst (items (table w))) \<Longrightarrow>
   distinct (map fst (items (table (snd (Add k d l t now w)))))"
  by (simp add: Add_eq distinct_stored distinct_expirationCheck)

lemmas run_more = run_defs NotFoundAdd_def stored_def sweepPending_def scheduledWait_def timerConsistent_def






lemma set_update_subset:
  "distinct (map fst al) \<Longrightarrow>
   set (AList.update k v al) \<subseteq> insert (k, v) {e \<in> set al. fst e \<noteq> k}"
  by (induction al) (auto simp: image_iff)

lemma distinct_snd_key:
  "distinct (map snd al) \<Longrightarrow> (k, r) \<in> set al \<Longrightarrow> (k', r) \<in> set al \<Longrightarrow> k' = k"
  by (induction al) (auto simp: image_iff)

lemma wellFormed_lookup:
  "wellFormed w \<Longrightarrow> map_of (items (table w)) k = Some r \<Longrightarrow> r < length (heap w)"
  by (auto simp: wellFormed_def list_all_iff dest!: map_of_SomeD)

lemma stored_addresses:
  assumes "wellFormed w" and "map_of (items (table w)) k = Some r"
  shows "r \<notin> snd ` set (items (table (stored k d l t w)))"
proof
  assume "r \<in> snd ` set (items (table (stored k d l t w)))"
  then obtain k' where "(k', r) \<in> set (AList.update k (length (heap w)) (items (table w)))"
    by (auto simp: stored_simps)
  moreover have "distinct (map fst (items (table w)))"
    using assms(1) by (simp add: wellFormed_def)
  ultimately have "r = length (heap w) \<or> ((k', r) \<in> set (items (table w)) \<and> k' \<noteq> k)"
    using set_update_subset [of "items (table w)" k "length (heap w)"] by auto
  moreover have "r < length (heap w)"
    using assms by (rule wellFormed_lookup)
  moreover have "(k, r) \<in> set (items (table w))"
    using assms(2) by (rule map_of_SomeD)
  moreover have "distinct (map snd (items (table w)))"
    using assms(1) by (simp add: wellFormed_def)
  ultimately show False
    using distinct_snd_key [of "items (table w)" k r k'] by auto
qed

lemma deleteEvents_address:
  "ev \<in> set (deleteEvents t h e) \<Longrightarrow>
   (\<exists>f. ev = AboutToDeleteItem f (snd e)) \<or> (\<exists>g. ev = AboutToExpire g (snd e) (fst e))"
  by (auto simp: deleteEvents_def call_def split: option.splits)

lemma sweep_events_address:
  assumes "ev \<in> set (concat (map (deleteEvents t h) (filter P al)))"
  shows "\<exists>e \<in> set al. (\<exists>f. ev = AboutToDeleteItem f (snd e)) \<or> (\<exists>g. ev = AboutToExpire g (snd e) (fst e))"
proof -
  from assms obtain e where "e \<in> set al" and "ev \<in> set (deleteEvents t h e)"
    by auto
  then show ?thesis
    using deleteEvents_address [of ev t h e] by blast
qed

lemma expirationCheck_items_subset:
  "distinct (map fst (items (table w))) \<Longrightarrow>
   set (items (table (expirationCheck now w))) \<subseteq> set (items (table w))"
  by (simp add: expirationCheck_eq)

lemma Value_present:
  "map_of (items (table w)) k = Some r \<Longrightarrow>
   Value k args t now w = (Inr r, w\<lparr>heap := KeepAlive r t (heap w)\<rparr>)"
  by (simp add: Value_def)

lemma Value_no_loader:
  "map_of (items (table w)) k = None \<Longrightarrow> loadData (table w) = None \<Longrightarrow>
   Value k args t now w = (Inl ErrKeyNotFound, w)"
  by (simp add: Value_def)

lemma Value_not_loadable:
  "map_of (items (table w)) k = None \<Longrightarrow> loadData (table w) = Some load \<Longrightarrow>
   load k args (heap w) = (None, h) \<Longrightarrow>
   Value k args t now w = (Inl ErrKeyNotFoundOrLoadable, w\<lparr>heap := h\<rparr>)"
  by (simp add: Value_def)

lemma Value_loaded:
  "map_of (items (table w)) k = None \<Longrightarrow> loadData (table w) = Some load \<Longrightarrow>
   load k args (heap w) = (Some item, h) \<Longrightarrow>
   Value k args t now w =
     (Inr item, snd (Add k (data (h ! item)) (lifeSpan (h ! item)) t now (w\<lparr>heap := h\<rparr>)))"
  by (simp add: Value_def)

lemmas run_value = run_more Value_def KeepAlive_def SetAboutToExpireCallback_def
  loaderWorld_def exampleLoader_def

lemma set_insertPair: "set (insertPair p ps) = insert p (set ps)"
  by (induction ps) auto

lemma set_Sort: "set (Sort ps) = set ps"
  by (induction ps) (simp_all add: set_insertPair)

lemma length_insertPair: "length (insertPair p ps) = Suc (length ps)"
  by (induction ps) simp_all

lemma length_Sort: "length (Sort ps) = length ps"
  by (induction ps) (simp_all add: length_insertPair)

lemma descending_insertPair:
  "sorted_wrt (\<lambda>p q. AccessCount p \<ge> AccessCount q) ps \<Longrightarrow>
   sorted_wrt (\<lambda>p q. AccessCount p \<ge> AccessCount q) (insertPair p ps)"
  by (induction ps) (auto simp: set_insertPair Less_def)

lemma descending_Sort: "sorted_wrt (\<lambda>p q. AccessCount p \<ge> AccessCount q) (Sort ps)"
  by (induction ps) (simp_all add: descending_insertPair)

lemma collect_found:
  "\<forall>v \<in> set vs. map_of its (Key v) \<noteq> None \<Longrightarrow>
   collect count its vs c r =
     r @ map (\<lambda>v. the (map_of its (Key v))) (take (nat (count - c)) vs)"
proof (induction vs arbitrary: c r)
  case Nil
  then show ?case by simp
next
  case (Cons v vs)
  show ?case
  proof (cases "c \<ge> count")
    case True
    then show ?thesis by simp
  next
    case False
    then have n: "nat (count - c) = Suc (nat (count - (c + 1)))" by simp
    from Cons.prems obtain item where item: "map_of its (Key v) = Some item" by auto
    from Cons.prems have "\<forall>v \<in> set vs. map_of its (Key v) \<noteq> None" by simp
    from Cons.IH [OF this, of "c + 1" "r @ [item]"] False item show ?thesis
      by (simp add: n)
  qed
qed

lemma MostAccessed_eq:
  assumes "distinct (map fst (items (table w)))"
  shows "MostAccessed count w =
     map (\<lambda>v. the (map_of (items (table w)) (Key v)))
       (take (nat count)
          (Sort (map (\<lambda>(k, v). \<lparr>Key = k, AccessCount = accessCount (heap w ! v)\<rparr>)
                   (items (table w)))))"
proof -
  let ?p = "map (\<lambda>(k, v). \<lparr>Key = k, AccessCount = accessCount (heap w ! v)\<rparr>) (items (table w))"
  have "\<forall>v \<in> set (Sort ?p). map_of (items (table w)) (Key v) \<noteq> None"
    using assms by (auto simp: set_Sort)
  from collect_found [OF this, of count 0 "[]"] show ?thesis
    by (simp add: MostAccessed_def)
qed

lemma pair_count:
  assumes "distinct (map fst al)"
    and "v \<in> set (map (\<lambda>(k, a). \<lparr>Key = k, AccessCount = accessCount (h ! a)\<rparr>) al)"
  shows "accessCount (h ! the (map_of al (Key v))) = AccessCount v"
proof -
  from assms(2) obtain k a where "(k, a) \<in> set al"
    and v: "v = \<lparr>Key = k, AccessCount = accessCount (h ! a)\<rparr>"
    by auto
  with assms(1) have "map_of al k = Some a" by simp
  with v show ?thesis by simp
qed

text \<open>
  Every reachable state is well formed, so the hypotheses of the claims below
  (distinct keys, \<open>wellFormed\<close>) hold wherever a program can get.
\<close>

lemma wellFormed_cong:
  "items (table w') = items (table w) \<Longrightarrow> length (heap w) \<le> length (heap w') \<Longrightarrow>
   wellFormed w \<Longrightarrow> wellFormed w'"
  by (auto simp: wellFormed_def list_all_iff)

lemma wellFormed_filter:
  "items (table w') = filter P (items (table w)) \<Longrightarrow> length (heap w) \<le> length (heap w') \<Longrightarrow>
   wellFormed w \<Longrightarrow> wellFormed w'"
  by (auto simp: wellFormed_def list_all_iff distinct_map_filter)

lemma distinct_snd_update:
  "distinct (map fst al) \<Longrightarrow> distinct (map snd al) \<Longrightarrow> b \<notin> snd ` set al \<Longrightarrow>
   distinct (map snd (AList.update k b al))"
proof (induction al)
  case Nil
  then show ?case by simp
next
  case (Cons e al)
  have "set (AList.update k b al) \<subseteq> insert (k, b) {e \<in> set al. fst e \<noteq> k}"
    using Cons.prems(1) by (intro set_update_subset) simp
  then have "snd ` set (AList.update k b al) \<subseteq> insert b (snd ` set al)"
    by auto
  with Cons show ?case
    by (auto simp: image_iff)
qed

lemma wellFormed_stored:
  assumes "wellFormed w"
  shows "wellFormed (stored k d l t w)"
proof -
  let ?al = "items (table w)"
  from assms have dk: "distinct (map fst ?al)" and da: "distinct (map snd ?al)"
    and va: "\<forall>e \<in> set ?al. snd e < length (heap w)"
    by (simp_all add: wellFormed_def list_all_iff)
  from va have fresh: "length (heap w) \<notin> snd ` set ?al" by auto
  have "set (AList.update k (length (heap w)) ?al) \<subseteq> insert (k, length (heap w)) {e \<in> set ?al. fst e \<noteq> k}"
    using dk by (rule set_update_subset)
  with va have "\<forall>e \<in> set (AList.update k (length (heap w)) ?al). snd e < Suc (length (heap w))"
    by (auto simp: less_Suc_eq)
  with dk da fresh show ?thesis
    by (simp add: wellFormed_def list_all_iff stored_simps distinct_update distinct_snd_update)
qed

lemma wellFormed_expirationCheck: "wellFormed w \<Longrightarrow> wellFormed (expirationCheck now w)"
  by (rule wellFormed_filter [where P = "\<lambda>e. \<not> expired now (heap w ! snd e)"])
     (simp_all add: expirationCheck_eq wellFormed_def heap_expirationCheck)

lemma wellFormed_Add: "wellFormed w \<Longrightarrow> wellFormed (snd (Add k d l t now w))"
  by (simp add: Add_eq wellFormed_stored wellFormed_expirationCheck)

lemma loadData_expirationCheck:
  "distinct (map fst (items (table w))) \<Longrightarrow> loadData (table (expirationCheck now w)) = loadData (table w)"
  by (simp add: expirationCheck_eq)

lemma loadData_Add:
  "distinct (map fst (items (table w))) \<Longrightarrow> loadData (table (snd (Add k d l t now w))) = loadData (table w)"
  using loadData_expirationCheck [OF distinct_stored, of w now k d l t]
  by (simp add: Add_eq stored_simps)

lemma tableInv_Add: "tableInv w \<Longrightarrow> tableInv (snd (Add k d l t now w))"
  by (simp add: tableInv_def wellFormed_Add loadData_Add) (simp add: wellFormed_def loadData_Add)

lemma tableInv_Value:
  assumes "tableInv w"
  shows "tableInv (snd (Value k args t now w))"
proof (cases "map_of (items (table w)) k")
  case (Some r)
  then have "snd (Value k args t now w) = w\<lparr>heap := KeepAlive r t (heap w)\<rparr>"
    by (simp add: Value_present)
  with assms show ?thesis
    using wellFormed_cong [of "w\<lparr>heap := KeepAlive r t (heap w)\<rparr>" w]
    by (simp add: tableInv_def KeepAlive_def)
next
  case None
  show ?thesis
  proof (cases "loadData (table w)")
    case absent: None
    with None assms show ?thesis by (simp add: Value_no_loader)
  next
    case (Some load)
    obtain res h where l: "load k args (heap w) = (res, h)" by (cases "load k args (heap w)")
    from assms Some have "length (heap w) \<le> length (snd (load k args (heap w)))"
      by (simp add: tableInv_def loaderOK_def)
    then have len: "length (heap w) \<le> length h" by (simp add: l)
    have i: "tableInv (w\<lparr>heap := h\<rparr>)"
      using assms len wellFormed_cong [of "w\<lparr>heap := h\<rparr>" w] by (simp add: tableInv_def)
    show ?thesis
    proof (cases res)
      case none: None
      with None Some l i show ?thesis by (simp add: Value_not_loadable)
    next
      case (Some item)
      with None \<open>loadData (table w) = Some load\<close> l
      have "snd (Value k args t now w)
          = snd (Add k (data (h ! item)) (lifeSpan (h ! item)) t now (w\<lparr>heap := h\<rparr>))"
        by (simp add: Value_loaded)
      with i show ?thesis by (simp add: tableInv_Add)
    qed
  qed
qed

lemma tableInv_Delete: "tableInv w \<Longrightarrow> tableInv (snd (Delete k w))"
proof (cases "map_of (items (table w)) k")
  case None
  then show "tableInv w \<Longrightarrow> ?thesis" by (simp add: Delete_def deleteInternal_absent)
next
  case (Some r)
  have "wellFormed w \<Longrightarrow> wellFormed (snd (Delete k w))"
    by (rule wellFormed_filter [where P = "\<lambda>e. fst e \<noteq> k"])
       (simp_all add: Delete_def deleteInternal_present [OF Some] delete_filter)
  then show "tableInv w \<Longrightarrow> ?thesis"
    by (simp add: tableInv_def) (simp add: Delete_def deleteInternal_present [OF Some])
qed

lemma tableInv_NotFoundAdd: "tableInv w \<Longrightarrow> tableInv (snd (NotFoundAdd k d l t now w))"
  by (cases "map_of (items (table w)) k") (simp_all add: NotFoundAdd_eq tableInv_Add)

lemma tableInv_expirationCheck: "tableInv w \<Longrightarrow> tableInv (expirationCheck now w)"
  by (simp add: tableInv_def wellFormed_expirationCheck) (simp add: wellFormed_def loadData_expirationCheck)

lemma reachable_tableInv: "reachable w \<Longrightarrow> tableInv w"
proof (induction rule: reachable.induct)
  case (start n)
  show ?case by (simp add: tableInv_def wellFormed_def newCacheTable_def loaderOK_def)
next
  case (flush w)
  then show ?case by (simp add: tableInv_def wellFormed_def Flush_def)
next
  case (newItem w k d l now)
  then show ?case
    using wellFormed_cong [of "w\<lparr>heap := heap w @ [NewCacheItem k d l now]\<rparr>" w]
    by (simp add: tableInv_def alloc_def)
next
  case (keepAlive w a now)
  then show ?case
    using wellFormed_cong [of "w\<lparr>heap := KeepAlive a now (heap w)\<rparr>" w]
    by (simp add: tableInv_def KeepAlive_def)
next
  case (setAboutToExpire w a g)
  then show ?case
    using wellFormed_cong [of "w\<lparr>heap := SetAboutToExpireCallback a g (heap w)\<rparr>" w]
    by (simp add: tableInv_def SetAboutToExpireCallback_def)
next
  case (setDataLoader w f)
  then show ?case
    using wellFormed_cong [of "SetDataLoader f w" w]
    by (simp add: tableInv_def SetDataLoader_def)
next
  case (setAddedItem w f)
  then show ?case
    using wellFormed_cong [of "SetAddedItemCallback f w" w]
    by (simp add: tableInv_def SetAddedItemCallback_def)
next
  case (setAboutToDeleteItem w f)
  then show ?case
    using wellFormed_cong [of "SetAboutToDeleteItemCallback f w" w]
    by (simp add: tableInv_def SetAboutToDeleteItemCallback_def)
qed (simp_all add: tableInv_Add tableInv_NotFoundAdd tableInv_Delete tableInv_Value tableInv_expirationCheck)

lemma reachable_wellFormed: "reachable w \<Longrightarrow> wellFormed w"
  using reachable_tableInv [of w] by (simp add: tableInv_def)

lemma reachable_distinct_keys: "reachable w \<Longrightarrow> distinct (map fst (items (table w)))"
  using reachable_wellFormed [of w] by (simp add: wellFormed_def)

lemmas run_shared = run_value sharedWorld_def sharedLoader_def

section \<open>The claims\<close>

subsection \<open>C1: a sweep is scheduled for every entry that can expire\<close>

text \<open>
  C1. The claim asks that, whenever the table holds an entry with a nonzero
  \<^verbatim>\<open>lifeSpan\<close>, a sweep is pending that fires no later than that entry's expiry, and
  names the interleaving of \<^verbatim>\<open>Flush\<close> and \<^verbatim>\<open>Add\<close>. The code does not do that:
  \<^verbatim>\<open>Flush\<close> stops the timer and leaves \<^verbatim>\<open>cleanupInterval\<close> as it was, and
  \<^verbatim>\<open>addInternal\<close> reads a nonzero \<^verbatim>\<open>cleanupInterval\<close> as a sweep being scheduled.
  On an empty table: \<^verbatim>\<open>Add("a", 1, 5)\<close> at time 0 arms a timer for 5 and the invariant
  holds; after \<^verbatim>\<open>Flush()\<close> and \<^verbatim>\<open>Add("b", 2, 10)\<close> at time 1 the table holds
  \<^verbatim>\<open>"b"\<close> with \<^verbatim>\<open>lifeSpan\<close> 10, the only timer is the stopped one, and the
  invariant fails. The state that \<^verbatim>\<open>Flush\<close> leaves is the first in which
  \<^verbatim>\<open>cleanupInterval\<close> and the timer disagree.
\<close>

theorem Flush_then_Add_arms_no_sweep:
  "sweepScheduled (snd (Add ''a'' 1 5 0 0 emptyWorld)) \<and>
   cleanupTimer (table (snd (Add ''a'' 1 5 0 0 emptyWorld)))
     = Some \<lparr>armedAt = 0, wait = 5, pending = True\<rparr> \<and>
   items (table (snd (Add ''b'' 2 10 1 1 (Flush (snd (Add ''a'' 1 5 0 0 emptyWorld)))))) = [(''b'', 1)] \<and>
   lifeSpan (heap (snd (Add ''b'' 2 10 1 1 (Flush (snd (Add ''a'' 1 5 0 0 emptyWorld))))) ! 1) = 10 \<and>
   cleanupTimer (table (snd (Add ''b'' 2 10 1 1 (Flush (snd (Add ''a'' 1 5 0 0 emptyWorld))))))
     = Some \<lparr>armedAt = 0, wait = 5, pending = False\<rparr> \<and>
   cleanupInterval (table (snd (Add ''b'' 2 10 1 1 (Flush (snd (Add ''a'' 1 5 0 0 emptyWorld)))))) = 5 \<and>
   \<not> sweepScheduled (snd (Add ''b'' 2 10 1 1 (Flush (snd (Add ''a'' 1 5 0 0 emptyWorld))))) \<and>
   timerConsistent (table (snd (Add ''a'' 1 5 0 0 emptyWorld))) \<and>
   \<not> timerConsistent (table (Flush (snd (Add ''a'' 1 5 0 0 emptyWorld))))"
  by (simp add: run_defs sweepScheduled_def timerConsistent_def sweepPending_def scheduledWait_def)

subsection \<open>C2: when Add runs the expiration check\<close>




subsection \<open>C3: one run of the expiration sweep\<close>

text \<open>
  C3. One run of \<^verbatim>\<open>expirationCheck\<close> at time \<open>now\<close>, on a table whose keys are
  distinct (as the keys of a Go map are): the entries left are exactly those that do not
  have a nonzero \<^verbatim>\<open>lifeSpan\<close> with \<^verbatim>\<open>now - accessedOn >= lifeSpan\<close>, in their
  order; no item is modified; the callbacks called are those of calling \<^verbatim>\<open>Delete\<close>
  on each expired entry in turn (C5 gives them: the table's callback on the item, then
  the item's own on the key). If some surviving entry has a nonzero \<^verbatim>\<open>lifeSpan\<close>,
  a timer is armed at \<open>now\<close> for the least \<^verbatim>\<open>lifeSpan - (now - accessedOn)\<close> among
  them, which is positive; otherwise no timer is armed, and the old one stays stopped.
\<close>

theorem expirationCheck_sweep:
  assumes "distinct (map fst (items (table w)))"
  shows
    "items (table (expirationCheck now w)) =
       filter (\<lambda>e. \<not> (lifeSpan (heap w ! snd e) \<noteq> 0 \<and>
                       now - accessedOn (heap w ! snd e) \<ge> lifeSpan (heap w ! snd e)))
         (items (table w)) \<and>
     heap (expirationCheck now w) = heap w \<and>
     trace (expirationCheck now w) =
       trace (fold (\<lambda>e w. snd (Delete (fst e) w))
                (filter (\<lambda>e. lifeSpan (heap w ! snd e) \<noteq> 0 \<and>
                             now - accessedOn (heap w ! snd e) \<ge> lifeSpan (heap w ! snd e))
                   (items (table w))) w) \<and>
     (let survivors = filter (\<lambda>e. lifeSpan (heap w ! snd e) \<noteq> 0)
                        (items (table (expirationCheck now w)));
          waits = map (\<lambda>e. lifeSpan (heap w ! snd e) - (now - accessedOn (heap w ! snd e)))
                    survivors
      in if survivors \<noteq> []
         then cleanupTimer (table (expirationCheck now w))
                = Some \<lparr>armedAt = now, wait = Min (set waits), pending = True\<rparr> \<and>
              0 < Min (set waits)
         else cleanupTimer (table (expirationCheck now w))
                = map_option (\<lambda>tm. tm\<lparr>pending := False\<rparr>) (cleanupTimer (table w)))"
proof -
  let ?al = "items (table w)"
  let ?ex = "filter (\<lambda>e. expired now (heap w ! snd e)) ?al"
  let ?live = "filter (\<lambda>e. live now (heap w ! snd e)) ?al"
  have items: "items (table (expirationCheck now w)) = filter (\<lambda>e. \<not> expired now (heap w ! snd e)) ?al"
    by (simp add: expirationCheck_eq [OF assms])
  have dex: "distinct (map fst ?ex)"
    using assms by (simp add: distinct_map_filter)
  have inex: "\<forall>e \<in> set ?ex. map_of ?al (fst e) = Some (snd e)"
    using assms by auto
  have tr: "trace (expirationCheck now w) = trace (fold (\<lambda>e w. snd (Delete (fst e) w)) ?ex w)"
    by (simp add: expirationCheck_eq [OF assms] fold_Delete [OF dex inex])
  have surv: "filter (\<lambda>e. lifeSpan (heap w ! snd e) \<noteq> 0) (items (table (expirationCheck now w))) = ?live"
    unfolding items by (rule survivors_live)
  have waits: "map (\<lambda>e. lifeSpan (heap w ! snd e) - (now - accessedOn (heap w ! snd e))) ?live
      = map (\<lambda>e. remaining now (heap w ! snd e)) ?live"
    by (simp add: remaining_def)
  have timer: "cleanupTimer (table (expirationCheck now w)) =
      (if ?live \<noteq> [] then Some \<lparr>armedAt = now, wait = sweepWait now w, pending = True\<rparr>
       else map_option (\<lambda>tm. tm\<lparr>pending := False\<rparr>) (cleanupTimer (table w)))"
    using sweepWait_pos [of now w] sweepWait_none [of now w]
    by (auto simp: expirationCheck_eq [OF assms] AfterFunc_def Stop_def map_option_case split: option.splits)
  have min: "?live \<noteq> [] \<Longrightarrow>
      sweepWait now w = Min (set (map (\<lambda>e. remaining now (heap w ! snd e)) ?live))"
    by (simp add: sweepWait_def nextWait_0)
  show ?thesis
    unfolding Let_def surv waits
    using items [unfolded expired_def] tr [unfolded expired_def] timer min sweepWait_pos [of now w]
    by (auto simp: heap_expirationCheck)
qed

theorem expirationCheck_sweep_witness:
  "distinct (map fst (items (table exampleWorld))) \<and>
   items (table (expirationCheck 6 exampleWorld)) = [(''b'', 1), (''c'', 2)] \<and>
   heap (expirationCheck 6 exampleWorld) = heap exampleWorld \<and>
   trace (expirationCheck 6 exampleWorld) = [AboutToDeleteItem 7 0, AboutToExpire 9 0 ''a''] \<and>
   cleanupTimer (table (expirationCheck 6 exampleWorld))
     = Some \<lparr>armedAt = 6, wait = 17, pending = True\<rparr> \<and>
   cleanupTimer (table (expirationCheck 30 exampleWorld))
     = Some \<lparr>armedAt = 0, wait = 5, pending = False\<rparr>"
proof -
  have d: "distinct (map fst (items (table exampleWorld)))"
    by (simp add: exampleWorld_def)
  from d expirationCheck_sweep [OF d, of 6] expirationCheck_sweep [OF d, of 30]
  show ?thesis
    by (simp add: run_defs)
qed

subsection \<open>C4: Value\<close>

text \<open>
  C4. \<^verbatim>\<open>Value(key, args...)\<close>, on a table with distinct keys. If the key is present
  it returns the stored item, having set its \<^verbatim>\<open>accessedOn\<close> to the clock reading and
  added one to its \<^verbatim>\<open>accessCount\<close>. If the key is absent and no loader is set it
  returns \<^verbatim>\<open>ErrKeyNotFound\<close> and the state is unchanged. If the loader returns nil it
  returns \<^verbatim>\<open>ErrKeyNotFoundOrLoadable\<close>, and the table and the trace are unchanged. If
  the loader returns an item, that item is returned, and the table is left as
  \<^verbatim>\<open>Add(key, item.data, item.lifeSpan)\<close> leaves it: a new item with the loaded item's
  \<^verbatim>\<open>data\<close> and \<^verbatim>\<open>lifeSpan\<close> is stored under the key, and it is still there
  when \<^verbatim>\<open>Value\<close> returns unless the expiration check of that \<^verbatim>\<open>Add\<close> ran and
  found the \<^verbatim>\<open>lifeSpan\<close> already elapsed at its own clock reading. The call fails in
  exactly the two cases named.
\<close>

theorem Value_contract:
  assumes "distinct (map fst (items (table w)))"
  shows
    "(\<forall>r. map_of (items (table w)) k = Some r \<longrightarrow>
        Value k args t now w =
          (Inr r, w\<lparr>heap := (heap w)[r := (heap w ! r)
                     \<lparr>accessedOn := t, accessCount := accessCount (heap w ! r) + 1\<rparr>]\<rparr>)) \<and>
     (map_of (items (table w)) k = None \<and> loadData (table w) = None \<longrightarrow>
        Value k args t now w = (Inl ErrKeyNotFound, w)) \<and>
     (\<forall>load h. map_of (items (table w)) k = None \<and> loadData (table w) = Some load \<and>
        load k args (heap w) = (None, h) \<longrightarrow>
        fst (Value k args t now w) = Inl ErrKeyNotFoundOrLoadable \<and>
        table (snd (Value k args t now w)) = table w \<and>
        trace (snd (Value k args t now w)) = trace w) \<and>
     (\<forall>load item h. map_of (items (table w)) k = None \<and> loadData (table w) = Some load \<and>
        load k args (heap w) = (Some item, h) \<longrightarrow>
        fst (Value k args t now w) = Inr item \<and>
        snd (Value k args t now w)
          = snd (Add k (data (h ! item)) (lifeSpan (h ! item)) t now (w\<lparr>heap := h\<rparr>)) \<and>
        map_of (items (table (stored k (data (h ! item)) (lifeSpan (h ! item)) t (w\<lparr>heap := h\<rparr>)))) k
          = Some (length h) \<and>
        heap (snd (Value k args t now w)) ! length h
          = \<lparr>key = k, data = data (h ! item), lifeSpan = lifeSpan (h ! item),
             createdOn = t, accessedOn = t, accessCount = 0, aboutToExpire = None\<rparr> \<and>
        map_of (items (table (snd (Value k args t now w)))) k =
          (if (lifeSpan (h ! item) > 0 \<and>
               (cleanupInterval (table w) = 0 \<or> lifeSpan (h ! item) < cleanupInterval (table w))) \<and>
              lifeSpan (h ! item) \<le> now - t
           then None else Some (length h))) \<and>
     ((\<exists>e. fst (Value k args t now w) = Inl e) \<longleftrightarrow>
        map_of (items (table w)) k = None \<and>
        (loadData (table w) = None \<or>
         (\<exists>load. loadData (table w) = Some load \<and> fst (load k args (heap w)) = None)))"
proof (intro conjI allI impI)
  fix r assume "map_of (items (table w)) k = Some r"
  then show "Value k args t now w =
      (Inr r, w\<lparr>heap := (heap w)[r := (heap w ! r)
                 \<lparr>accessedOn := t, accessCount := accessCount (heap w ! r) + 1\<rparr>]\<rparr>)"
    by (simp add: Value_present KeepAlive_def)
next
  assume "map_of (items (table w)) k = None \<and> loadData (table w) = None"
  then show "Value k args t now w = (Inl ErrKeyNotFound, w)"
    by (simp add: Value_no_loader)
next
  fix load h
  assume a: "map_of (items (table w)) k = None \<and> loadData (table w) = Some load \<and>
        load k args (heap w) = (None, h)"
  then have v: "Value k args t now w = (Inl ErrKeyNotFoundOrLoadable, w\<lparr>heap := h\<rparr>)"
    by (simp add: Value_not_loadable)
  show "fst (Value k args t now w) = Inl ErrKeyNotFoundOrLoadable" by (simp add: v)
  show "table (snd (Value k args t now w)) = table w" by (simp add: v)
  show "trace (snd (Value k args t now w)) = trace w" by (simp add: v)
next
  fix load item h
  assume a: "map_of (items (table w)) k = None \<and> loadData (table w) = Some load \<and>
        load k args (heap w) = (Some item, h)"
  let ?w = "w\<lparr>heap := h\<rparr>"
  let ?d = "data (h ! item)" and ?l = "lifeSpan (h ! item)"
  from a have v: "Value k args t now w = (Inr item, snd (Add k ?d ?l t now ?w))"
    by (simp add: Value_loaded)
  show "fst (Value k args t now w) = Inr item" by (simp add: v)
  show "snd (Value k args t now w) = snd (Add k ?d ?l t now ?w)" by (simp add: v)
  show "map_of (items (table (stored k ?d ?l t ?w))) k = Some (length h)"
    by (simp add: stored_simps update_conv')
  show "heap (snd (Value k args t now w)) ! length h
      = \<lparr>key = k, data = ?d, lifeSpan = ?l, createdOn = t, accessedOn = t,
         accessCount = 0, aboutToExpire = None\<rparr>"
    by (simp add: v Add_heap NewCacheItem_def)
  have d: "distinct (map fst (items (table ?w)))" using assms by simp
  show "map_of (items (table (snd (Value k args t now w)))) k =
          (if (?l > 0 \<and> (cleanupInterval (table w) = 0 \<or> ?l < cleanupInterval (table w))) \<and>
              ?l \<le> now - t
           then None else Some (length h))"
    using Add_lookup [OF d, of k ?d ?l t now] by (simp add: v)
next
  show "(\<exists>e. fst (Value k args t now w) = Inl e) \<longleftrightarrow>
        map_of (items (table w)) k = None \<and>
        (loadData (table w) = None \<or>
         (\<exists>load. loadData (table w) = Some load \<and> fst (load k args (heap w)) = None))"
    by (auto simp: Value_def split: option.splits prod.splits)
qed

theorem Value_contract_witness:
  "distinct (map fst (items (table loaderWorld))) \<and>
   distinct (map fst (items (table exampleWorld))) \<and>
   Value ''z'' [] 7 8 exampleWorld = (Inl ErrKeyNotFound, exampleWorld) \<and>
   fst (Value ''nil'' [] 7 8 loaderWorld) = Inl ErrKeyNotFoundOrLoadable \<and>
   table (snd (Value ''nil'' [] 7 8 loaderWorld)) = table loaderWorld \<and>
   Value ''a'' [] 7 8 loaderWorld =
     (Inr 0, loaderWorld\<lparr>heap := (heap loaderWorld)[0 := (heap loaderWorld ! 0)
        \<lparr>accessedOn := 7, accessCount := accessCount (heap loaderWorld ! 0) + 1\<rparr>]\<rparr>) \<and>
   accessCount (heap loaderWorld ! 0) + 1 = 3 \<and>
   fst (Value ''z'' [] 7 8 loaderWorld) = Inr 3 \<and>
   map_of (items (table (snd (Value ''z'' [] 7 8 loaderWorld)))) ''z'' = Some 4 \<and>
   heap (snd (Value ''z'' [] 7 8 loaderWorld)) ! 4
     = \<lparr>key = ''z'', data = 42, lifeSpan = 5, createdOn = 7, accessedOn = 7,
        accessCount = 0, aboutToExpire = None\<rparr> \<and>
   fst (Value ''z'' [] 7 12 sharedWorld) = Inr 0 \<and>
   map_of (items (table (snd (Value ''z'' [] 7 12 sharedWorld)))) ''z'' = None"
proof -
  have d: "distinct (map fst (items (table loaderWorld)))"
    and d': "distinct (map fst (items (table exampleWorld)))"
    and d'': "distinct (map fst (items (table sharedWorld)))"
    by (simp_all add: loaderWorld_def exampleWorld_def sharedWorld_def)
  have no_loader: "map_of (items (table exampleWorld)) ''z'' = None \<and> loadData (table exampleWorld) = None"
    by (simp add: exampleWorld_def)
  have nil: "map_of (items (table loaderWorld)) ''nil'' = None \<and>
      loadData (table loaderWorld) = Some exampleLoader \<and>
      exampleLoader ''nil'' [] (heap loaderWorld) = (None, heap loaderWorld)"
    by (simp add: loaderWorld_def exampleWorld_def exampleLoader_def)
  have present: "map_of (items (table loaderWorld)) ''a'' = Some 0"
    by (simp add: loaderWorld_def exampleWorld_def)
  have loaded: "map_of (items (table loaderWorld)) ''z'' = None \<and>
      loadData (table loaderWorld) = Some exampleLoader \<and>
      exampleLoader ''z'' [] (heap loaderWorld) =
        (Some 3, heap loaderWorld @ [\<lparr>key = ''z'', data = 42, lifeSpan = 5, createdOn = 0,
           accessedOn = 0, accessCount = 0, aboutToExpire = None\<rparr>])"
    by (simp add: loaderWorld_def exampleWorld_def exampleLoader_def)
  have shared: "map_of (items (table sharedWorld)) ''z'' = None \<and>
      loadData (table sharedWorld) = Some sharedLoader \<and>
      sharedLoader ''z'' [] (heap sharedWorld) = (Some 0, heap sharedWorld)"
    by (simp add: sharedWorld_def sharedLoader_def)
  note A = Value_contract [OF d', of "''z''" "[]" 7 8, THEN conjunct2, THEN conjunct1,
      rule_format, OF no_loader]
  note B = Value_contract [OF d, of "''nil''" "[]" 7 8, THEN conjunct2, THEN conjunct2,
      THEN conjunct1, rule_format, OF nil]
  note C = Value_contract [OF d, of "''a''" "[]" 7 8, THEN conjunct1, rule_format, OF present]
  note D = Value_contract [OF d, of "''z''" "[]" 7 8, THEN conjunct2, THEN conjunct2,
      THEN conjunct2, THEN conjunct1, rule_format, OF loaded]
  note E = Value_contract [OF d'', of "''z''" "[]" 7 12, THEN conjunct2, THEN conjunct2,
      THEN conjunct2, THEN conjunct1, rule_format, OF shared]
  have c3: "accessCount (heap loaderWorld ! 0) + 1 = 3"
    by (simp add: loaderWorld_def exampleWorld_def)
  have D1: "fst (Value ''z'' [] 7 8 loaderWorld) = Inr 3"
    using D by (elim conjE)
  have D4: "map_of (items (table (snd (Value ''z'' [] 7 8 loaderWorld)))) ''z'' = Some 4"
    using D [THEN conjunct2, THEN conjunct2, THEN conjunct2, THEN conjunct2]
    by (simp add: loaderWorld_def exampleWorld_def)
  have D3: "heap (snd (Value ''z'' [] 7 8 loaderWorld)) ! 4
     = \<lparr>key = ''z'', data = 42, lifeSpan = 5, createdOn = 7, accessedOn = 7,
        accessCount = 0, aboutToExpire = None\<rparr>"
    using D [THEN conjunct2, THEN conjunct2, THEN conjunct2, THEN conjunct1]
    by (simp add: loaderWorld_def exampleWorld_def eval_nat_numeral)
  have E1: "fst (Value ''z'' [] 7 12 sharedWorld) = Inr 0"
    using E by (elim conjE)
  have E4: "map_of (items (table (snd (Value ''z'' [] 7 12 sharedWorld)))) ''z'' = None"
    using E [THEN conjunct2, THEN conjunct2, THEN conjunct2, THEN conjunct2]
    by (simp add: sharedWorld_def)
  from d d' A B [THEN conjunct1] B [THEN conjunct2, THEN conjunct1] C c3 D1 D4 D3 E1 E4
  show ?thesis by (intro conjI)
qed

subsection \<open>C5: Delete\<close>

text \<open>
  C5. \<^verbatim>\<open>Delete(key)\<close> on an absent key returns \<^verbatim>\<open>ErrKeyNotFound\<close> and leaves the
  state as it was. On a present key it returns the stored item; the trace grows by the
  table's \<^verbatim>\<open>aboutToDeleteItem\<close> callback on the item (if set), followed by the item's
  own \<^verbatim>\<open>aboutToExpire\<close> callback on the key (if set); the key is gone from the map,
  every other key is as before, and no item is modified.
\<close>

theorem Delete_contract:
  "(map_of (items (table w)) k = None \<longrightarrow> Delete k w = (Inl ErrKeyNotFound, w)) \<and>
   (\<forall>r. map_of (items (table w)) k = Some r \<longrightarrow>
      fst (Delete k w) = Inr r \<and>
      trace (snd (Delete k w)) =
        trace w
        @ (case aboutToDeleteItem (table w) of None \<Rightarrow> [] | Some f \<Rightarrow> [AboutToDeleteItem f r])
        @ (case aboutToExpire (heap w ! r) of None \<Rightarrow> [] | Some g \<Rightarrow> [AboutToExpire g r k]) \<and>
      map_of (items (table (snd (Delete k w)))) = (map_of (items (table w)))(k := None) \<and>
      heap (snd (Delete k w)) = heap w)"
  by (simp add: Delete_def deleteInternal_def call_def AList.delete_conv')

theorem Delete_contract_witness:
  "map_of (items (table exampleWorld)) ''a'' = Some 0 \<and>
   fst (Delete ''a'' exampleWorld) = Inr 0 \<and>
   trace (snd (Delete ''a'' exampleWorld)) = [AboutToDeleteItem 7 0, AboutToExpire 9 0 ''a''] \<and>
   map_of (items (table (snd (Delete ''a'' exampleWorld)))) ''a'' = None \<and>
   map_of (items (table (snd (Delete ''a'' exampleWorld)))) ''b'' = Some 1 \<and>
   map_of (items (table exampleWorld)) ''z'' = None \<and>
   Delete ''z'' exampleWorld = (Inl ErrKeyNotFound, exampleWorld)"
  using Delete_contract [of exampleWorld "''a''"] Delete_contract [of exampleWorld "''z''"]
  by (simp add: exampleWorld_def)

subsection \<open>C6: MostAccessed\<close>

text \<open>
  C6, as stated, fails on the code for a negative \<^verbatim>\<open>count\<close> (an \<^verbatim>\<open>int64\<close>): the loop
  stops at once, since \<^verbatim>\<open>c >= count\<close> holds for \<^verbatim>\<open>c = 0\<close>, and the result is empty,
  of length 0 and not \<open>min (- 1) 3\<close>.
\<close>

theorem MostAccessed_negative_count:
  "MostAccessed (- 1) exampleWorld = [] \<and>
   Count exampleWorld = 3 \<and>
   int (length (MostAccessed (- 1) exampleWorld)) \<noteq> min (- 1) (int (Count exampleWorld))"
  by (simp add: exampleWorld_def MostAccessed_def Less_def Count_def)

text \<open>
  C6, amended. On a table with distinct keys, \<^verbatim>\<open>MostAccessed(n)\<close> returns stored
  items in non-increasing order of \<^verbatim>\<open>accessCount\<close>, and their number is
  \<open>min (max n 0) (Count w)\<close>: \<open>min n (Count w)\<close> for \<open>n \<ge> 0\<close>, and 0 for a negative
  \<open>n\<close>.
\<close>

theorem MostAccessed_descending:
  assumes "distinct (map fst (items (table w)))"
  shows
    "sorted_wrt (\<lambda>a b. accessCount (heap w ! a) \<ge> accessCount (heap w ! b)) (MostAccessed n w) \<and>
     int (length (MostAccessed n w)) = min (max n 0) (int (Count w)) \<and>
     set (MostAccessed n w) \<subseteq> snd ` set (items (table w))"
proof -
  let ?al = "items (table w)"
  let ?p = "map (\<lambda>(k, v). \<lparr>Key = k, AccessCount = accessCount (heap w ! v)\<rparr>) ?al"
  let ?top = "take (nat n) (Sort ?p)"
  have eq: "MostAccessed n w = map (\<lambda>v. the (map_of ?al (Key v))) ?top"
    using assms by (rule MostAccessed_eq)
  have mem: "v \<in> set ?p" if "v \<in> set ?top" for v
    using that set_Sort [of ?p] by (auto dest: in_set_takeD)
  have cnt: "accessCount (heap w ! the (map_of ?al (Key v))) = AccessCount v" if "v \<in> set ?top" for v
    using assms mem [OF that] by (rule pair_count)
  have "sorted_wrt (\<lambda>p q. AccessCount p \<ge> AccessCount q) ?top"
    using descending_Sort by (rule sorted_wrt_take)
  then have "sorted_wrt (\<lambda>p q. accessCount (heap w ! the (map_of ?al (Key p)))
                              \<ge> accessCount (heap w ! the (map_of ?al (Key q)))) ?top"
    by (rule sorted_wrt_mono_rel [rotated]) (simp add: cnt)
  then have sorted: "sorted_wrt (\<lambda>a b. accessCount (heap w ! a) \<ge> accessCount (heap w ! b))
      (MostAccessed n w)"
    by (simp add: eq sorted_wrt_map)
  have len: "int (length (MostAccessed n w)) = min (max n 0) (int (Count w))"
    by (simp add: eq length_Sort Count_def)
  have "the (map_of ?al (Key v)) \<in> snd ` set ?al" if "v \<in> set ?top" for v
  proof -
    from mem [OF that] obtain k a where ka: "(k, a) \<in> set ?al" and "Key v = k" by auto
    with assms have "map_of ?al (Key v) = Some a" by simp
    with ka show ?thesis by (simp add: image_iff) (metis snd_conv)
  qed
  then have sub: "set (MostAccessed n w) \<subseteq> snd ` set ?al"
    by (auto simp: eq)
  from sorted len sub show ?thesis by simp
qed

theorem MostAccessed_descending_witness:
  "distinct (map fst (items (table exampleWorld))) \<and>
   MostAccessed 2 exampleWorld = [1, 2] \<and>
   MostAccessed 5 exampleWorld = [1, 2, 0] \<and>
   map (\<lambda>a. accessCount (heap exampleWorld ! a)) (MostAccessed 5 exampleWorld) = [7, 4, 2] \<and>
   Count exampleWorld = 3"
proof -
  have d: "distinct (map fst (items (table exampleWorld)))"
    by (simp add: exampleWorld_def)
  from d MostAccessed_descending [OF d, of 2] MostAccessed_descending [OF d, of 5]
  show ?thesis
    by (simp add: exampleWorld_def MostAccessed_def Less_def Count_def newCacheTable_def)
qed

subsection \<open>C7: entries that never expire\<close>

text \<open>
  C7. An entry whose \<^verbatim>\<open>lifeSpan\<close> is 0 survives every run of the sweep: after any
  sequence of runs of \<^verbatim>\<open>expirationCheck\<close>, at any clock readings \<open>nows\<close>, the key
  still maps to the same item, and the item is unchanged. The table's keys are distinct,
  as the keys of a Go map are.
\<close>

theorem zero_lifeSpan_never_swept:
  assumes "distinct (map fst (items (table w)))"
    and "map_of (items (table w)) k = Some a"
    and "lifeSpan (heap w ! a) = 0"
  shows "map_of (items (table (fold expirationCheck nows w))) k = Some a \<and>
         heap (fold expirationCheck nows w) ! a = heap w ! a"
  using assms
proof (induction nows arbitrary: w)
  case Nil
  then show ?case by simp
next
  case (Cons now nows)
  have "\<not> expired now (heap w ! a)"
    using Cons.prems(3) by (simp add: expired_def)
  with Cons.prems have "map_of (items (table (expirationCheck now w))) k = Some a"
    by (simp add: expirationCheck_keeps)
  moreover have "distinct (map fst (items (table (expirationCheck now w))))"
    using Cons.prems(1) by (rule distinct_expirationCheck)
  moreover have "lifeSpan (heap (expirationCheck now w) ! a) = 0"
    using Cons.prems(3) by (simp add: heap_expirationCheck)
  ultimately show ?case
    using Cons.IH [of "expirationCheck now w"] by (simp add: heap_expirationCheck)
qed

theorem zero_lifeSpan_never_swept_witness:
  "distinct (map fst (items (table exampleWorld))) \<and>
   map_of (items (table exampleWorld)) ''b'' = Some 1 \<and>
   lifeSpan (heap exampleWorld ! 1) = 0 \<and>
   map_of (items (table (fold expirationCheck [6, 1000, 1000000] exampleWorld))) ''b'' = Some 1 \<and>
   map_of (items (table (fold expirationCheck [6, 1000, 1000000] exampleWorld))) ''c'' = None"
proof -
  have "distinct (map fst (items (table exampleWorld)))"
    and "map_of (items (table exampleWorld)) ''b'' = Some 1"
    and "lifeSpan (heap exampleWorld ! 1) = 0"
    by (simp_all add: exampleWorld_def)
  from this zero_lifeSpan_never_swept [OF this, of "[6, 1000, 1000000]"]
  show ?thesis
    by (simp add: run_defs)
qed

subsection \<open>C8: the loaded item and the stored item\<close>

text \<open>
  C8, as stated, fails on the code in its last part: a later \<^verbatim>\<open>Value(key)\<close> need not
  return the stored item. With a loader that hands out one and the same item (of
  \<^verbatim>\<open>lifeSpan\<close> 5), \<^verbatim>\<open>Value("z")\<close> builds the stored item at time 7; the expiration
  check of its \<^verbatim>\<open>Add\<close> reads the clock at 12, finds the stored item expired and removes
  it. The next \<^verbatim>\<open>Value("z")\<close> misses again and returns the loader's item: the very
  item the first call returned, and not the one that was stored.
\<close>

theorem Value_again_returns_the_loaded_entry:
  "map_of (items (table sharedWorld)) ''z'' = None \<and>
   fst (Value ''z'' [] 7 12 sharedWorld) = Inr 0 \<and>
   heap (snd (Value ''z'' [] 7 12 sharedWorld)) ! 1
     = \<lparr>key = ''z'', data = 42, lifeSpan = 5, createdOn = 7, accessedOn = 7,
        accessCount = 0, aboutToExpire = None\<rparr> \<and>
   items (table (stored ''z'' 42 5 7 sharedWorld)) = [(''z'', 1)] \<and>
   items (table (snd (Value ''z'' [] 7 12 sharedWorld))) = [] \<and>
   trace (snd (Value ''z'' [] 7 12 sharedWorld)) = [] \<and>
   fst (Value ''z'' [] 13 13 (snd (Value ''z'' [] 7 12 sharedWorld))) = Inr 0 \<and>
   fst (Value ''z'' [] 13 13 (snd (Value ''z'' [] 7 12 sharedWorld))) \<noteq> Inr 1"
  by (simp add: run_shared)

text \<open>
  C8, amended. When \<^verbatim>\<open>Value(key)\<close> misses and the loader returns the item \<open>item\<close>
  (a valid pointer into the store \<open>h\<close> the loader leaves), the call returns \<open>item\<close>,
  while the item stored under the key is another, newly allocated one that has the
  requested key, the \<^verbatim>\<open>data\<close> and \<^verbatim>\<open>lifeSpan\<close> of \<open>item\<close>, fresh times,
  \<^verbatim>\<open>accessCount\<close> 0 and no \<^verbatim>\<open>aboutToExpire\<close>. Setting the callback of \<open>item\<close> or
  keeping it alive leaves the stored item as it is. The stored item is still under the
  key when the call returns unless the expiration check of the call ran and found the
  \<^verbatim>\<open>lifeSpan\<close> already elapsed; and whenever it is still there, a later
  \<^verbatim>\<open>Value(key)\<close> returns the stored item, which then has been accessed once and still
  has no callback.
\<close>

theorem Value_loaded_entry_is_not_the_stored_one:
  assumes "distinct (map fst (items (table w)))"
    and "map_of (items (table w)) k = None"
    and "loadData (table w) = Some load"
    and "load k args (heap w) = (Some item, h)"
    and "item < length h"
  shows
    "fst (Value k args t now w) = Inr item \<and>
     length h \<noteq> item \<and>
     heap (snd (Value k args t now w)) =
       h @ [\<lparr>key = k, data = data (h ! item), lifeSpan = lifeSpan (h ! item),
              createdOn = t, accessedOn = t, accessCount = 0, aboutToExpire = None\<rparr>] \<and>
     map_of (items (table (stored k (data (h ! item)) (lifeSpan (h ! item)) t (w\<lparr>heap := h\<rparr>)))) k
       = Some (length h) \<and>
     map_of (items (table (snd (Value k args t now w)))) k =
       (if (lifeSpan (h ! item) > 0 \<and>
            (cleanupInterval (table w) = 0 \<or> lifeSpan (h ! item) < cleanupInterval (table w))) \<and>
           lifeSpan (h ! item) \<le> now - t
        then None else Some (length h)) \<and>
     (\<forall>f. SetAboutToExpireCallback item f (heap (snd (Value k args t now w))) ! length h
            = heap (snd (Value k args t now w)) ! length h) \<and>
     (\<forall>t'. KeepAlive item t' (heap (snd (Value k args t now w))) ! length h
            = heap (snd (Value k args t now w)) ! length h) \<and>
     (map_of (items (table (snd (Value k args t now w)))) k = Some (length h) \<longrightarrow>
      (\<forall>f t' args' t2 now2.
        fst (Value k args' t2 now2
               ((snd (Value k args t now w))
                  \<lparr>heap := KeepAlive item t'
                     (SetAboutToExpireCallback item f (heap (snd (Value k args t now w))))\<rparr>))
          = Inr (length h) \<and>
        heap (snd (Value k args' t2 now2
               ((snd (Value k args t now w))
                  \<lparr>heap := KeepAlive item t'
                     (SetAboutToExpireCallback item f (heap (snd (Value k args t now w))))\<rparr>)))
          ! length h
          = \<lparr>key = k, data = data (h ! item), lifeSpan = lifeSpan (h ! item),
             createdOn = t, accessedOn = t2, accessCount = 1, aboutToExpire = None\<rparr>))"
proof -
  let ?w = "w\<lparr>heap := h\<rparr>"
  let ?new = "\<lparr>key = k, data = data (h ! item), lifeSpan = lifeSpan (h ! item),
              createdOn = t, accessedOn = t, accessCount = 0, aboutToExpire = None\<rparr>"
  let ?w1 = "snd (Value k args t now w)"
  have v: "Value k args t now w =
      (Inr item, snd (Add k (data (h ! item)) (lifeSpan (h ! item)) t now ?w))"
    using assms(2-4) by (rule Value_loaded)
  have d: "distinct (map fst (items (table ?w)))" using assms(1) by simp
  have f: "fst (Value k args t now w) = Inr item" by (simp add: v)
  have st: "map_of (items (table (stored k (data (h ! item)) (lifeSpan (h ! item)) t ?w))) k
      = Some (length h)"
    by (simp add: stored_simps update_conv')
  have look: "map_of (items (table ?w1)) k =
       (if (lifeSpan (h ! item) > 0 \<and>
            (cleanupInterval (table w) = 0 \<or> lifeSpan (h ! item) < cleanupInterval (table w))) \<and>
           lifeSpan (h ! item) \<le> now - t
        then None else Some (length h))"
    using Add_lookup [OF d, of k "data (h ! item)" "lifeSpan (h ! item)" t now] by (simp add: v)
  have hp: "heap ?w1 = h @ [?new]"
    by (simp add: v Add_heap NewCacheItem_def)
  have ne: "length h \<noteq> item" using assms(5) by simp
  have set: "\<forall>f. SetAboutToExpireCallback item f (heap ?w1) ! length h = heap ?w1 ! length h"
    using ne by (simp add: SetAboutToExpireCallback_def)
  have keep: "\<forall>t'. KeepAlive item t' (heap ?w1) ! length h = heap ?w1 ! length h"
    using ne by (simp add: KeepAlive_def)
  have again: "fst (Value k args' t2 now2 (?w1\<lparr>heap := KeepAlive item t'
                     (SetAboutToExpireCallback item f (heap ?w1))\<rparr>)) = Inr (length h) \<and>
        heap (snd (Value k args' t2 now2 (?w1\<lparr>heap := KeepAlive item t'
                     (SetAboutToExpireCallback item f (heap ?w1))\<rparr>))) ! length h
          = \<lparr>key = k, data = data (h ! item), lifeSpan = lifeSpan (h ! item),
             createdOn = t, accessedOn = t2, accessCount = 1, aboutToExpire = None\<rparr>"
    if still: "map_of (items (table ?w1)) k = Some (length h)"
    for f t' args' t2 now2
  proof -
    let ?h2 = "KeepAlive item t' (SetAboutToExpireCallback item f (heap ?w1))"
    let ?w2 = "?w1\<lparr>heap := ?h2\<rparr>"
    have "map_of (items (table ?w2)) k = Some (length h)" using still by simp
    then have v2: "Value k args' t2 now2 ?w2
        = (Inr (length h), ?w2\<lparr>heap := KeepAlive (length h) t2 (heap ?w2)\<rparr>)"
      by (rule Value_present)
    have len: "length ?h2 = Suc (length h)"
      by (simp add: hp KeepAlive_def SetAboutToExpireCallback_def)
    have at: "?h2 ! length h = ?new"
      using ne assms(5) by (simp add: hp KeepAlive_def SetAboutToExpireCallback_def)
    show ?thesis
      by (simp add: v2 KeepAlive_def [of "length h"] len at)
  qed
  show ?thesis
    by (intro conjI impI allI) (rule f ne hp st look set [rule_format] keep [rule_format]
      again [THEN conjunct1] again [THEN conjunct2] | assumption)+
qed

theorem Value_loaded_entry_is_not_the_stored_one_witness:
  "distinct (map fst (items (table loaderWorld))) \<and>
   map_of (items (table loaderWorld)) ''z'' = None \<and>
   loadData (table loaderWorld) = Some exampleLoader \<and>
   fst (Value ''z'' [] 7 8 loaderWorld) = Inr 3 \<and>
   map_of (items (table (snd (Value ''z'' [] 7 8 loaderWorld)))) ''z'' = Some 4 \<and>
   heap (snd (Value ''z'' [] 7 8 loaderWorld)) ! 4
     = \<lparr>key = ''z'', data = 42, lifeSpan = 5, createdOn = 7, accessedOn = 7,
        accessCount = 0, aboutToExpire = None\<rparr> \<and>
   SetAboutToExpireCallback 3 (Some 6) (heap (snd (Value ''z'' [] 7 8 loaderWorld))) ! 4
     = heap (snd (Value ''z'' [] 7 8 loaderWorld)) ! 4 \<and>
   fst (Value ''z'' [] 9 9
          ((snd (Value ''z'' [] 7 8 loaderWorld))
             \<lparr>heap := KeepAlive 3 8
                (SetAboutToExpireCallback 3 (Some 6) (heap (snd (Value ''z'' [] 7 8 loaderWorld))))\<rparr>))
     = Inr 4"
proof -
  let ?h = "heap loaderWorld @ [\<lparr>key = ''z'', data = 42, lifeSpan = 5, createdOn = 0,
           accessedOn = 0, accessCount = 0, aboutToExpire = None\<rparr>]"
  have c: "distinct (map fst (items (table loaderWorld)))"
    "map_of (items (table loaderWorld)) ''z'' = None"
    "loadData (table loaderWorld) = Some exampleLoader"
    and l: "exampleLoader ''z'' [] (heap loaderWorld) = (Some 3, ?h)"
    and n: "3 < length ?h"
    by (simp_all add: loaderWorld_def exampleWorld_def exampleLoader_def)
  note T = Value_loaded_entry_is_not_the_stored_one [OF c l n, of 7 8]
  have len: "length ?h = 4" by (simp add: loaderWorld_def exampleWorld_def)
  have T1: "fst (Value ''z'' [] 7 8 loaderWorld) = Inr 3"
    using T by (elim conjE)
  have T3: "heap (snd (Value ''z'' [] 7 8 loaderWorld)) ! 4
     = \<lparr>key = ''z'', data = 42, lifeSpan = 5, createdOn = 7, accessedOn = 7,
        accessCount = 0, aboutToExpire = None\<rparr>"
    using T [THEN conjunct2, THEN conjunct2, THEN conjunct1] len
    by (simp add: loaderWorld_def exampleWorld_def eval_nat_numeral)
  have T5: "map_of (items (table (snd (Value ''z'' [] 7 8 loaderWorld)))) ''z'' = Some 4"
    using T [THEN conjunct2, THEN conjunct2, THEN conjunct2, THEN conjunct2, THEN conjunct1]
    by (simp add: loaderWorld_def exampleWorld_def)
  have T6: "SetAboutToExpireCallback 3 (Some 6) (heap (snd (Value ''z'' [] 7 8 loaderWorld))) ! 4
     = heap (snd (Value ''z'' [] 7 8 loaderWorld)) ! 4"
    using T [THEN conjunct2, THEN conjunct2, THEN conjunct2, THEN conjunct2, THEN conjunct2,
      THEN conjunct1] unfolding len by blast
  have T8: "fst (Value ''z'' [] 9 9
          ((snd (Value ''z'' [] 7 8 loaderWorld))
             \<lparr>heap := KeepAlive 3 8
                (SetAboutToExpireCallback 3 (Some 6) (heap (snd (Value ''z'' [] 7 8 loaderWorld))))\<rparr>))
     = Inr 4"
    using T [THEN conjunct2, THEN conjunct2, THEN conjunct2, THEN conjunct2, THEN conjunct2,
      THEN conjunct2, THEN conjunct2] T5 unfolding len by blast
  from c T1 T5 T3 T6 T8 show ?thesis by (intro conjI)
qed

subsection \<open>C9: Add on a key that is present\<close>

text \<open>
  C9. In a well-formed state where \<open>k\<close> maps to the item \<open>r\<close>, \<^verbatim>\<open>Add(k, d, l)\<close>
  returns a pointer to a new item, different from \<open>r\<close>, whose \<^verbatim>\<open>accessCount\<close> is 0,
  whose \<^verbatim>\<open>createdOn\<close> and \<^verbatim>\<open>accessedOn\<close> are the clock reading \<open>t\<close> of its
  construction and whose \<^verbatim>\<open>aboutToExpire\<close> is nil. The store puts the new item under
  \<open>k\<close> in place of \<open>r\<close>; afterwards \<open>r\<close> is stored under no key, and \<open>k\<close> maps to
  the new item (or to nothing, if the expiration check of the call ran and found the
  new item's \<^verbatim>\<open>lifeSpan\<close> already elapsed). Among the callbacks called during the
  call there is neither the table's \<^verbatim>\<open>aboutToDeleteItem\<close> on \<open>r\<close> nor the
  \<^verbatim>\<open>aboutToExpire\<close> of \<open>r\<close>.
\<close>

theorem Add_overwrites:
  assumes "wellFormed w" and "map_of (items (table w)) k = Some r"
  shows
    "fst (Add k d l t now w) = length (heap w) \<and>
     length (heap w) \<noteq> r \<and>
     heap (snd (Add k d l t now w)) ! length (heap w)
       = \<lparr>key = k, data = d, lifeSpan = l, createdOn = t, accessedOn = t,
          accessCount = 0, aboutToExpire = None\<rparr> \<and>
     map_of (items (table (stored k d l t w))) k = Some (length (heap w)) \<and>
     snd (Add k d l t now w) =
       (if l > 0 \<and> (cleanupInterval (table w) = 0 \<or> l < cleanupInterval (table w))
        then expirationCheck now (stored k d l t w) else stored k d l t w) \<and>
     map_of (items (table (snd (Add k d l t now w)))) k =
       (if (l > 0 \<and> (cleanupInterval (table w) = 0 \<or> l < cleanupInterval (table w))) \<and>
           l \<le> now - t
        then None else Some (length (heap w))) \<and>
     r \<notin> snd ` set (items (table (snd (Add k d l t now w)))) \<and>
     (\<exists>evs. trace (snd (Add k d l t now w)) = trace w @ evs \<and>
        (\<forall>f. AboutToDeleteItem f r \<notin> set evs) \<and>
        (\<forall>g k'. AboutToExpire g r k' \<notin> set evs))"
proof -
  let ?s = "stored k d l t w"
  have dk: "distinct (map fst (items (table w)))"
    using assms(1) by (simp add: wellFormed_def)
  have ds: "distinct (map fst (items (table ?s)))"
    using dk by (rule distinct_stored)
  have r: "r < length (heap w)"
    using assms by (rule wellFormed_lookup)
  have notin: "r \<notin> snd ` set (items (table ?s))"
    using assms by (rule stored_addresses)
  have gone: "r \<notin> snd ` set (items (table (snd (Add k d l t now w))))"
    using notin expirationCheck_items_subset [OF ds, of now]
    by (auto simp: Add_eq)
  let ?added = "call (addedItem (table w)) (\<lambda>f. AddedItem f (length (heap w)))"
  let ?swept = "concat (map (deleteEvents (table ?s) (heap ?s))
                  (filter (\<lambda>e. expired now (heap ?s ! snd e)) (items (table ?s))))"
  let ?evs = "?added @ (if l > 0 \<and> (cleanupInterval (table w) = 0 \<or> l < cleanupInterval (table w))
                        then ?swept else [])"
  have tr: "trace (snd (Add k d l t now w)) = trace w @ ?evs"
  proof (cases "l > 0 \<and> (cleanupInterval (table w) = 0 \<or> l < cleanupInterval (table w))")
    case True
    then have "snd (Add k d l t now w) = expirationCheck now ?s" by (simp add: Add_eq)
    with True show ?thesis
      by (simp add: expirationCheck_eq [OF ds] stored_simps)
  next
    case False
    then have "snd (Add k d l t now w) = ?s" by (simp only: Add_eq snd_conv if_False)
    with False show ?thesis
      by (simp only: stored_simps if_False append_Nil2)
  qed
  have added: "\<forall>ev \<in> set ?added. \<exists>f. ev = AddedItem f (length (heap w))"
    by (auto simp: call_def split: option.splits)
  have swept: "\<forall>ev \<in> set ?swept. \<exists>e \<in> set (items (table ?s)).
      (\<exists>f. ev = AboutToDeleteItem f (snd e)) \<or> (\<exists>g. ev = AboutToExpire g (snd e) (fst e))"
    using sweep_events_address by fast
  have no_del: "AboutToDeleteItem f r \<notin> set ?evs" for f
  proof
    assume "AboutToDeleteItem f r \<in> set ?evs"
    with added have "AboutToDeleteItem f r \<in> set ?swept"
      by (auto split: if_splits)
    with swept obtain e where "e \<in> set (items (table ?s))" and "r = snd e"
      by fastforce
    with notin show False by auto
  qed
  have no_exp: "AboutToExpire g r k' \<notin> set ?evs" for g k'
  proof
    assume "AboutToExpire g r k' \<in> set ?evs"
    with added have "AboutToExpire g r k' \<in> set ?swept"
      by (auto split: if_splits)
    with swept obtain e where "e \<in> set (items (table ?s))" and "r = snd e"
      by fastforce
    with notin show False by auto
  qed
  have ex: "\<exists>evs. trace (snd (Add k d l t now w)) = trace w @ evs \<and>
        (\<forall>f. AboutToDeleteItem f r \<notin> set evs) \<and>
        (\<forall>g k'. AboutToExpire g r k' \<notin> set evs)"
    using tr no_del no_exp by blast
  have h: "heap (snd (Add k d l t now w)) ! length (heap w)
      = \<lparr>key = k, data = d, lifeSpan = l, createdOn = t, accessedOn = t,
         accessCount = 0, aboutToExpire = None\<rparr>"
    by (simp add: Add_heap NewCacheItem_def)
  have f: "fst (Add k d l t now w) = length (heap w)"
    by (simp add: Add_eq)
  have st: "map_of (items (table ?s)) k = Some (length (heap w))"
    by (simp add: stored_simps update_conv')
  have e: "snd (Add k d l t now w) =
      (if l > 0 \<and> (cleanupInterval (table w) = 0 \<or> l < cleanupInterval (table w))
       then expirationCheck now ?s else ?s)"
    by (simp add: Add_eq)
  have ne: "length (heap w) \<noteq> r" using r by simp
  show ?thesis
    by (intro conjI) (rule f ne h st e Add_lookup [OF dk] gone ex)+
qed

theorem Add_overwrites_witness:
  "wellFormed exampleWorld \<and>
   map_of (items (table exampleWorld)) ''a'' = Some 0 \<and>
   accessCount (heap exampleWorld ! 0) = 2 \<and>
   aboutToExpire (heap exampleWorld ! 0) = Some 9 \<and>
   fst (Add ''a'' 4 3 9 10 exampleWorld) = 3 \<and>
   items (table (snd (Add ''a'' 4 3 9 10 exampleWorld))) = [(''a'', 3), (''b'', 1), (''c'', 2)] \<and>
   heap (snd (Add ''a'' 4 3 9 10 exampleWorld)) ! 3
     = \<lparr>key = ''a'', data = 4, lifeSpan = 3, createdOn = 9, accessedOn = 9,
        accessCount = 0, aboutToExpire = None\<rparr> \<and>
   trace (snd (Add ''a'' 4 3 9 10 exampleWorld)) = [AddedItem 8 3] \<and>
   items (table (snd (Add ''a'' 4 3 10 13 exampleWorld))) = [(''b'', 1), (''c'', 2)] \<and>
   trace (snd (Add ''a'' 4 3 10 13 exampleWorld)) = [AddedItem 8 3, AboutToDeleteItem 7 3]"
proof -
  have c: "wellFormed exampleWorld" "map_of (items (table exampleWorld)) ''a'' = Some 0"
    by (simp_all add: exampleWorld_def wellFormed_def)
  from c Add_overwrites [OF c, of 4 3 9 10] Add_overwrites [OF c, of 4 3 10 13]
  show ?thesis
    by (simp add: run_more)
qed

subsection \<open>C10: NotFoundAdd\<close>

text \<open>
  C10. On an absent key \<^verbatim>\<open>NotFoundAdd\<close> returns true and leaves the state that
  \<^verbatim>\<open>Add\<close> leaves, given the same two clock readings: a freshly built item is stored
  under the key, the \<^verbatim>\<open>addedItem\<close> callback (if set) is called on it, and the
  expiration check runs under the test of \<^verbatim>\<open>addInternal\<close>; the key maps to the new
  item afterwards unless that check found its \<^verbatim>\<open>lifeSpan\<close> already elapsed. On a
  present key it returns false and changes nothing.
\<close>

theorem NotFoundAdd_as_Add:
  assumes "distinct (map fst (items (table w)))"
  shows
    "(map_of (items (table w)) k = None \<longrightarrow>
        NotFoundAdd k d l t now w = (True, snd (Add k d l t now w)) \<and>
        snd (NotFoundAdd k d l t now w) =
           (if l > 0 \<and> (cleanupInterval (table w) = 0 \<or> l < cleanupInterval (table w))
            then expirationCheck now (stored k d l t w) else stored k d l t w) \<and>
        map_of (items (table (stored k d l t w))) k = Some (length (heap w)) \<and>
        heap (stored k d l t w) ! length (heap w)
          = \<lparr>key = k, data = d, lifeSpan = l, createdOn = t, accessedOn = t,
             accessCount = 0, aboutToExpire = None\<rparr> \<and>
        trace (stored k d l t w)
          = trace w @ (case addedItem (table w) of None \<Rightarrow> []
                       | Some f \<Rightarrow> [AddedItem f (length (heap w))]) \<and>
        map_of (items (table (snd (NotFoundAdd k d l t now w)))) k =
           (if (l > 0 \<and> (cleanupInterval (table w) = 0 \<or> l < cleanupInterval (table w))) \<and>
               l \<le> now - t
            then None else Some (length (heap w)))) \<and>
     (\<forall>r. map_of (items (table w)) k = Some r \<longrightarrow> NotFoundAdd k d l t now w = (False, w))"
proof -
  have st: "map_of (items (table (stored k d l t w))) k = Some (length (heap w))"
    by (simp add: stored_simps update_conv')
  have h: "heap (stored k d l t w) ! length (heap w)
      = \<lparr>key = k, data = d, lifeSpan = l, createdOn = t, accessedOn = t,
         accessCount = 0, aboutToExpire = None\<rparr>"
    by (simp add: stored_simps NewCacheItem_def)
  have tr: "trace (stored k d l t w)
      = trace w @ (case addedItem (table w) of None \<Rightarrow> []
                   | Some f \<Rightarrow> [AddedItem f (length (heap w))])"
    by (simp add: stored_simps call_def)
  have e: "snd (Add k d l t now w) =
      (if l > 0 \<and> (cleanupInterval (table w) = 0 \<or> l < cleanupInterval (table w))
       then expirationCheck now (stored k d l t w) else stored k d l t w)"
    by (simp add: Add_eq)
  have absent: "NotFoundAdd k d l t now w = (True, snd (Add k d l t now w))"
    if "map_of (items (table w)) k = None"
    using that by (simp add: NotFoundAdd_eq)
  have present: "NotFoundAdd k d l t now w = (False, w)"
    if "map_of (items (table w)) k = Some r" for r
    using that by (simp add: NotFoundAdd_eq)
  show ?thesis
  proof (intro conjI impI allI)
    fix r assume "map_of (items (table w)) k = Some r"
    then show "NotFoundAdd k d l t now w = (False, w)" by (rule present)
  qed (simp_all only: absent snd_conv st h tr e [symmetric] Add_lookup [OF assms])
qed

theorem NotFoundAdd_as_Add_witness:
  "distinct (map fst (items (table exampleWorld))) \<and>
   map_of (items (table exampleWorld)) ''d'' = None \<and>
   fst (NotFoundAdd ''d'' 4 3 9 10 exampleWorld) = True \<and>
   snd (NotFoundAdd ''d'' 4 3 9 10 exampleWorld) = snd (Add ''d'' 4 3 9 10 exampleWorld) \<and>
   items (table (snd (NotFoundAdd ''d'' 4 3 9 10 exampleWorld)))
     = [(''b'', 1), (''c'', 2), (''d'', 3)] \<and>
   trace (snd (NotFoundAdd ''d'' 4 3 9 10 exampleWorld))
     = [AddedItem 8 3, AboutToDeleteItem 7 0, AboutToExpire 9 0 ''a''] \<and>
   cleanupTimer (table (snd (NotFoundAdd ''d'' 4 3 9 10 exampleWorld)))
     = Some \<lparr>armedAt = 10, wait = 2, pending = True\<rparr> \<and>
   map_of (items (table (snd (NotFoundAdd ''d'' 4 3 9 12 exampleWorld)))) ''d'' = None \<and>
   trace (snd (NotFoundAdd ''d'' 4 3 9 12 exampleWorld))
     = [AddedItem 8 3, AboutToDeleteItem 7 0, AboutToExpire 9 0 ''a'', AboutToDeleteItem 7 3] \<and>
   map_of (items (table exampleWorld)) ''a'' = Some 0 \<and>
   NotFoundAdd ''a'' 4 3 9 10 exampleWorld = (False, exampleWorld)"
proof -
  have d: "distinct (map fst (items (table exampleWorld)))"
    by (simp add: exampleWorld_def)
  from d NotFoundAdd_as_Add [OF d, of "''d''" 4 3 9 10] NotFoundAdd_as_Add [OF d, of "''d''" 4 3 9 12]
    NotFoundAdd_as_Add [OF d, of "''a''" 4 3 9 10]
  show ?thesis
    by (simp add: run_more)
qed

end
